theory Spec2Isabelle
  imports Main "HOL-Library.Sublist" "HOL-Library.Multiset"
begin

section \<open>Strings as Python sees them\<close>

text \<open>
  Python strings are sequences of code points. A \<^typ>\<open>char\<close> stands for one code point
  below 256, so \<^term>\<open>length\<close> counts what Python's \<open>len\<close> counts on such text.
  \<open>str.isspace\<close> and the regular expression class \<open>\\s\<close> agree on these code points:
  9 to 13, 28 to 32, 133 and 160.
\<close>

definition is_space :: "char \<Rightarrow> bool" where
  "is_space c = (let n = (of_char c :: nat) in
     (9 \<le> n \<and> n \<le> 13) \<or> (28 \<le> n \<and> n \<le> 32) \<or> n = 133 \<or> n = 160)"

definition lstrip :: "string \<Rightarrow> string" where
  "lstrip s = dropWhile is_space s"

definition rstrip :: "string \<Rightarrow> string" where
  "rstrip s = rev (dropWhile is_space (rev s))"

definition strip :: "string \<Rightarrow> string" where
  "strip s = rstrip (lstrip s)"

definition lstrip_chr :: "char \<Rightarrow> string \<Rightarrow> string" where
  "lstrip_chr c s = dropWhile (\<lambda>x. x = c) s"

definition rstrip_chr :: "char \<Rightarrow> string \<Rightarrow> string" where
  "rstrip_chr c s = rev (dropWhile (\<lambda>x. x = c) (rev s))"

definition strip_chr :: "char \<Rightarrow> string \<Rightarrow> string" where
  "strip_chr c s = rstrip_chr c (lstrip_chr c s)"

definition startswith :: "string \<Rightarrow> string \<Rightarrow> bool" where
  "startswith s p = (take (length p) s = p)"

definition endswith :: "string \<Rightarrow> string \<Rightarrow> bool" where
  "endswith s p = (length p \<le> length s \<and> drop (length s - length p) s = p)"

text \<open>\<open>s.split(c, 1)\<close> for a string that contains \<open>c\<close>: the text before the first
  occurrence and the text after it.\<close>

definition split_first :: "char \<Rightarrow> string \<Rightarrow> string \<times> string" where
  "split_first c s = (takeWhile (\<lambda>x. x \<noteq> c) s, tl (dropWhile (\<lambda>x. x \<noteq> c) s))"

section \<open>Date-range parser (src/data\_utils.py)\<close>

text \<open>
  \<open>datetime.strptime(s, '%d/%m/%Y')\<close> compiles the format to the regular expression
  \<open>(3[0-1]|[1-2]\\d|0[1-9]|[1-9]| [1-9])/(1[0-2]|0[1-9]|[1-9])/(\\d\\d\\d\\d)\<close>, matches it at
  the start of the text by backtracking, raises \<open>ValueError\<close> when nothing matches or when
  text is left after the match, and then builds the date, which raises \<open>ValueError\<close> for
  year 0 and for a day the month does not have. Each group below lists its matches in the
  order the alternatives are tried; \<open>None\<close> is the \<open>ValueError\<close>.
\<close>

record datetime =
  year :: nat
  month :: nat
  day :: nat

definition is_digit :: "char \<Rightarrow> bool" where
  "is_digit c = (let n = (of_char c :: nat) in 48 \<le> n \<and> n \<le> 57)"

definition is_digit19 :: "char \<Rightarrow> bool" where
  "is_digit19 c = (let n = (of_char c :: nat) in 49 \<le> n \<and> n \<le> 57)"

definition digit_val :: "char \<Rightarrow> nat" where
  "digit_val c = of_char c - 48"

fun day_group :: "string \<Rightarrow> (nat \<times> string) list" where
  "day_group (a # b # r) =
     (if a = CHR ''3'' \<and> (b = CHR ''0'' \<or> b = CHR ''1'') then [(30 + digit_val b, r)] else []) @
     (if (a = CHR ''1'' \<or> a = CHR ''2'') \<and> is_digit b
        then [(10 * digit_val a + digit_val b, r)] else []) @
     (if a = CHR ''0'' \<and> is_digit19 b then [(digit_val b, r)] else []) @
     (if is_digit19 a then [(digit_val a, b # r)] else []) @
     (if a = CHR '' '' \<and> is_digit19 b then [(digit_val b, r)] else [])"
| "day_group [a] = (if is_digit19 a then [(digit_val a, [])] else [])"
| "day_group [] = []"

fun month_group :: "string \<Rightarrow> (nat \<times> string) list" where
  "month_group (a # b # r) =
     (if a = CHR ''1'' \<and> (b = CHR ''0'' \<or> b = CHR ''1'' \<or> b = CHR ''2'')
        then [(10 + digit_val b, r)] else []) @
     (if a = CHR ''0'' \<and> is_digit19 b then [(digit_val b, r)] else []) @
     (if is_digit19 a then [(digit_val a, b # r)] else [])"
| "month_group [a] = (if is_digit19 a then [(digit_val a, [])] else [])"
| "month_group [] = []"

fun year_group :: "string \<Rightarrow> (nat \<times> string) list" where
  "year_group (a # b # c # d # r) =
     (if is_digit a \<and> is_digit b \<and> is_digit c \<and> is_digit d
        then [(1000 * digit_val a + 100 * digit_val b + 10 * digit_val c + digit_val d, r)]
        else [])"
| "year_group _ = []"

fun slash :: "string \<Rightarrow> string list" where
  "slash (a # r) = (if a = CHR ''/'' then [r] else [])"
| "slash [] = []"

definition dmy_regex :: "string \<Rightarrow> (nat \<times> nat \<times> nat \<times> string) list" where
  "dmy_regex s =
     concat (map (\<lambda>(d, r0).
       concat (map (\<lambda>r1.
         concat (map (\<lambda>(m, r2).
           concat (map (\<lambda>r3.
             map (\<lambda>(y, r4). (d, m, y, r4)) (year_group r3))
           (slash r2)))
         (month_group r1)))
       (slash r0)))
     (day_group s))"

definition is_leap :: "nat \<Rightarrow> bool" where
  "is_leap y = (y mod 4 = 0 \<and> (y mod 100 \<noteq> 0 \<or> y mod 400 = 0))"

definition days_in_month :: "nat \<Rightarrow> nat \<Rightarrow> nat" where
  "days_in_month y m =
     (if m = 2 then (if is_leap y then 29 else 28)
      else if m = 4 \<or> m = 6 \<or> m = 9 \<or> m = 11 then 30 else 31)"

definition valid_date :: "nat \<Rightarrow> nat \<Rightarrow> nat \<Rightarrow> bool" where
  "valid_date y m d = (1 \<le> y \<and> 1 \<le> m \<and> m \<le> 12 \<and> 1 \<le> d \<and> d \<le> days_in_month y m)"

definition strptime_dmy :: "string \<Rightarrow> datetime option" where
  "strptime_dmy s =
     (case dmy_regex s of
        [] \<Rightarrow> None
      | (d, m, y, rest) # _ \<Rightarrow>
          if rest \<noteq> [] then None
          else if valid_date y m d then Some \<lparr>year = y, month = m, day = d\<rparr>
          else None)"

text \<open>
  \<open>parse_date_range\<close>: the argument is \<open>None\<close> for a missing value (\<open>pd.isna\<close>).
\<close>

definition parse_date_range :: "string option \<Rightarrow> datetime option \<times> datetime option" where
  "parse_date_range inp =
     (case inp of
        None \<Rightarrow> (None, None)
      | Some raw \<Rightarrow>
          if strip raw = [] then (None, None)
          else
            let date_str = strip raw in
            if endswith date_str ''-'' then
              (case strptime_dmy (rstrip_chr CHR ''-'' date_str) of
                 Some d \<Rightarrow> (Some d, None)
               | None \<Rightarrow> (None, None))
            else if startswith date_str ''-'' then
              (case strptime_dmy (lstrip_chr CHR ''-'' date_str) of
                 Some d \<Rightarrow> (None, Some d)
               | None \<Rightarrow> (None, None))
            else if CHR ''-'' \<in> set date_str then
              (let parts = split_first CHR ''-'' date_str;
                   start_str = strip (fst parts);
                   end_str = strip (snd parts);
                   date_start = (if start_str \<noteq> [] then strptime_dmy start_str else None);
                   date_finish = (if end_str \<noteq> [] then strptime_dmy end_str else None)
               in (date_start, date_finish))
            else
              (case strptime_dmy date_str of
                 Some d \<Rightarrow> (Some d, Some d)
               | None \<Rightarrow> (None, None)))"

section \<open>Path segments (sanitize\_dirname in src/issues/scrape\_issues.py)\<close>

text \<open>
  The first substitution replaces each character of the class \<open>[\\/*?:"<>|]\<close> by a dash,
  the second replaces each maximal run of dashes and whitespace by one dash, and
  \<open>strip('-')\<close> removes the dashes at both ends. An empty name returns \<open>unknown\<close> before
  any of this.
\<close>

definition is_disallowed :: "char \<Rightarrow> bool" where
  "is_disallowed c = (c = CHR 0x5C \<or> c = CHR ''/'' \<or> c = CHR ''*'' \<or> c = CHR ''?'' \<or>
     c = CHR '':'' \<or> c = CHR 0x22 \<or> c = CHR ''<'' \<or> c = CHR ''>'' \<or> c = CHR ''|'')"

definition sub_disallowed :: "string \<Rightarrow> string" where
  "sub_disallowed s = map (\<lambda>c. if is_disallowed c then CHR ''-'' else c) s"

definition dash_or_space :: "char \<Rightarrow> bool" where
  "dash_or_space c = (c = CHR ''-'' \<or> is_space c)"

function collapse_runs :: "string \<Rightarrow> string" where
  "collapse_runs [] = []"
| "collapse_runs (c # cs) =
     (if dash_or_space c then CHR ''-'' # collapse_runs (dropWhile dash_or_space cs)
      else c # collapse_runs cs)"
  by pat_completeness auto
termination
  by (relation "measure length") (auto simp: less_Suc_eq_le length_dropWhile_le)

definition sanitize_dirname :: "string \<Rightarrow> string" where
  "sanitize_dirname name =
     (if name = [] then ''unknown''
      else strip_chr CHR ''-'' (collapse_runs (sub_disallowed name)))"

text \<open>
  A publication as \<open>load_publications\<close> builds it: all five keys are always present, and
  \<open>issn\<close>, \<open>collection\<close> and \<open>issues_link\<close> are stripped.
\<close>

record publication =
  pub_uuid :: string
  issn :: string
  collection :: string
  title :: string
  issues_link :: string

text \<open>The two segments \<open>scrape_issues\<close> computes for the directory of an issue.\<close>

definition collection_safe :: "publication \<Rightarrow> string" where
  "collection_safe pub =
     (let s = sanitize_dirname (collection pub) in if s = [] then ''unknown_collection'' else s)"

definition issn_safe :: "publication \<Rightarrow> string" where
  "issn_safe pub =
     (let s = sanitize_dirname (issn pub) in if s = [] then ''unknown_issn'' else s)"

text \<open>The properties the specification asks of a directory name.\<close>

fun has_double_dash :: "string \<Rightarrow> bool" where
  "has_double_dash (a # b # r) = ((a = CHR ''-'' \<and> b = CHR ''-'') \<or> has_double_dash (b # r))"
| "has_double_dash _ = False"

definition clean_segment :: "string \<Rightarrow> bool" where
  "clean_segment s = (\<not> list_ex is_disallowed s \<and> \<not> has_double_dash s \<and>
     \<not> startswith s ''-'' \<and> \<not> endswith s ''-'')"

section \<open>Name parts of a listing item (parse\_issue\_name\_parts)\<close>

text \<open>
  A \<open>span.name-part\<close> element either can be read, giving its text and whether it holds or
  sits inside a \<open>strong\<close> element, or raises when it is touched (a stale element, a lost
  session). The argument of \<open>parse_issue_name_parts\<close> is \<open>None\<close> when the query for the
  parts raises.
\<close>

datatype name_part = NamePart bool string | StalePart

definition lower_chr :: "char \<Rightarrow> char" where
  "lower_chr c = (let n = (of_char c :: nat) in
     if (65 \<le> n \<and> n \<le> 90) \<or> (192 \<le> n \<and> n \<le> 222 \<and> n \<noteq> 215) then char_of (n + 32) else c)"

definition lower :: "string \<Rightarrow> string" where
  "lower s = map lower_chr s"

text \<open>\<open>str.isdigit\<close> below 256: the ten digits and the superscripts two, three and one.\<close>

definition py_isdigit :: "char \<Rightarrow> bool" where
  "py_isdigit c = (let n = (of_char c :: nat) in
     (48 \<le> n \<and> n \<le> 57) \<or> n = 178 \<or> n = 179 \<or> n = 185)"

fun contains :: "string \<Rightarrow> string \<Rightarrow> bool" where
  "contains [] sub = (sub = [])"
| "contains (c # cs) sub = (startswith (c # cs) sub \<or> contains cs sub)"

text \<open>\<open>s.replace(old, new)\<close> for a non-empty \<open>old\<close>, the only use the source makes of it.\<close>

fun replace :: "string \<Rightarrow> string \<Rightarrow> string \<Rightarrow> string" where
  "replace old new [] = []"
| "replace old new (c # cs) =
     (if old \<noteq> [] \<and> startswith (c # cs) old
      then new @ replace old new (drop (length old - 1) cs)
      else c # replace old new cs)"

definition paginas :: string where
  "paginas = [CHR ''p'', CHR 0xE1, CHR ''g'', CHR ''i'', CHR ''n'', CHR ''a'', CHR ''s'']"

definition n_ordinal :: string where
  "n_ordinal = [CHR ''n'', CHR ''.'', CHR 0xBA]"

definition n_ordinal_short :: string where
  "n_ordinal_short = [CHR ''n'', CHR 0xBA]"

type_synonym name_fields = "string \<times> string \<times> string \<times> string"

definition no_fields :: name_fields where
  "no_fields = ([], [], [], [])"

fun name_part_step :: "name_fields \<Rightarrow> name_part \<Rightarrow> name_fields option" where
  "name_part_step acc StalePart = None"
| "name_part_step (issue_name, date, number, pages) (NamePart strong raw) =
     (let text = strip raw in
      Some (if strong then (text, date, number, pages)
            else if contains (lower text) paginas
              then (issue_name, date, number, strip (replace paginas [] text))
            else if contains (lower text) n_ordinal \<or> contains (lower text) n_ordinal_short
              then (issue_name, date,
                    strip (replace n_ordinal_short [] (replace n_ordinal [] text)), pages)
            else if date = [] \<and> 4 \<le> length text \<and> list_ex py_isdigit text
              then (issue_name, text, number, pages)
            else (issue_name, date, number, pages)))"

fun name_parts_loop :: "name_fields \<Rightarrow> name_part list \<Rightarrow> name_fields option" where
  "name_parts_loop acc [] = Some acc"
| "name_parts_loop acc (p # ps) =
     (case name_part_step acc p of None \<Rightarrow> None | Some acc' \<Rightarrow> name_parts_loop acc' ps)"

definition parse_issue_name_parts :: "name_part list option \<Rightarrow> name_fields" where
  "parse_issue_name_parts name_element =
     (case name_element of
        None \<Rightarrow> no_fields
      | Some name_parts \<Rightarrow>
          (case name_parts_loop no_fields name_parts of
             None \<Rightarrow> no_fields
           | Some parsed \<Rightarrow> parsed))"

section \<open>Record store (get\_existing\_issue\_uuids)\<close>

text \<open>
  A row as \<open>csv.DictReader\<close> yields it maps each column of the header to its cell, and a
  column the row is too short to reach to Python's \<open>None\<close>. The store file is missing, or
  it is there and the reader yields some rows and then either ends or raises (a file that
  cannot be opened yields no row and raises). \<open>cell row k\<close> is the value the test
  \<open>k in row and row[k]\<close> lets through.
\<close>

type_synonym csv_row = "string \<rightharpoonup> string option"

datatype csv_file = Missing | Present "csv_row list" bool

definition cell :: "csv_row \<Rightarrow> string \<Rightarrow> string option" where
  "cell row k =
     (case row k of
        Some (Some v) \<Rightarrow> (if v = [] then None else Some v)
      | _ \<Rightarrow> None)"

fun scan_rows :: "string set \<times> string option \<Rightarrow> csv_row list \<Rightarrow> string set \<times> string option" where
  "scan_rows (existing, last_publication_issn) [] = (existing, last_publication_issn)"
| "scan_rows (existing, last_publication_issn) (row # rows) =
     scan_rows
       ((case cell row ''issue_uuid'' of Some v \<Rightarrow> insert v existing | None \<Rightarrow> existing),
        (case cell row ''publication_issn'' of Some v \<Rightarrow> Some v | None \<Rightarrow> last_publication_issn))
       rows"

text \<open>The result is the pair the source returns, and whether the warning was printed.\<close>

definition get_existing_issue_uuids :: "csv_file \<Rightarrow> (string set \<times> string option) \<times> bool" where
  "get_existing_issue_uuids f =
     (case f of
        Missing \<Rightarrow> (({}, None), False)
      | Present rows raises \<Rightarrow> (scan_rows ({}, None) rows, raises))"

text \<open>
  The specification's reading of the checkpoint, for comparison with the source: the value
  of a column in the last row read.
\<close>

definition last_row_value :: "csv_row list \<Rightarrow> string \<Rightarrow> string option" where
  "last_row_value rows k =
     (if rows = [] then None else (case last rows k of Some v \<Rightarrow> v | None \<Rightarrow> None))"

definition last_option :: "'a list \<Rightarrow> 'a option" where
  "last_option xs = (if xs = [] then None else Some (last xs))"

section \<open>Resume point (scrape\_issues, lines 350 to 364)\<close>

definition truthy :: "string option \<Rightarrow> bool" where
  "truthy v = (case v of None \<Rightarrow> False | Some s \<Rightarrow> s \<noteq> [])"

fun start_index_from :: "nat \<Rightarrow> string \<Rightarrow> publication list \<Rightarrow> int" where
  "start_index_from i c [] = - 1"
| "start_index_from i c (p # ps) =
     (if issn p = c then int i else start_index_from (Suc i) c ps)"

definition resume_publications :: "string option \<Rightarrow> publication list \<Rightarrow> publication list" where
  "resume_publications last_processed_issn publications =
     (case last_processed_issn of
        None \<Rightarrow> publications
      | Some c \<Rightarrow>
          if c = [] then publications
          else
            let start_index = start_index_from 0 c publications in
            if start_index \<noteq> - 1 then drop (nat start_index) publications
            else publications)"

section \<open>Download manager (download\_pdf)\<close>

text \<open>
  What the outside world does during one download: the request raises or answers with a
  status code, and writing the body to the target may raise; the click on the link may
  raise; each poll of the download directory raises, finds no new file or finds one, and
  the list of polls ends when the timeout is reached; moving the file may raise.
\<close>

datatype http_outcome = RequestRaises | Response nat bool

datatype poll_outcome = PollRaises | NoNewFile | NewFile

record download_world =
  http :: http_outcome
  click_raises :: bool
  polls :: "poll_outcome list"
  move_raises :: bool

datatype dl_event = HttpGet | WriteBody | Click | Poll | MoveFile

datatype 'a outcome = Returned 'a | Raised

text \<open>
  The inner \<open>try\<close> block: \<open>Returned (Some b)\<close> is a \<open>return b\<close> inside the block,
  \<open>Returned None\<close> is leaving the block without a return.
\<close>

definition primary_attempt :: "download_world \<Rightarrow> bool option outcome \<times> dl_event list" where
  "primary_attempt w =
     (case http w of
        RequestRaises \<Rightarrow> (Raised, [HttpGet])
      | Response status_code write_raises \<Rightarrow>
          if status_code = 200 then
            (if write_raises then (Raised, [HttpGet, WriteBody])
             else (Returned (Some True), [HttpGet, WriteBody]))
          else (Returned None, [HttpGet]))"

fun poll_loop :: "poll_outcome list \<Rightarrow> bool outcome \<times> dl_event list" where
  "poll_loop [] = (Returned False, [])"
| "poll_loop (PollRaises # ps) = (Raised, [Poll])"
| "poll_loop (NewFile # ps) = (Returned True, [Poll])"
| "poll_loop (NoNewFile # ps) = (case poll_loop ps of (r, ev) \<Rightarrow> (r, Poll # ev))"

definition fallback_attempt :: "download_world \<Rightarrow> bool option outcome \<times> dl_event list" where
  "fallback_attempt w =
     (if click_raises w then (Raised, [Click])
      else
        (case poll_loop (polls w) of
           (Raised, ev) \<Rightarrow> (Raised, Click # ev)
         | (Returned False, ev) \<Rightarrow> (Returned None, Click # ev)
         | (Returned True, ev) \<Rightarrow>
             if move_raises w then (Raised, Click # ev @ [MoveFile])
             else (Returned (Some True), Click # ev @ [MoveFile])))"

text \<open>
  The body of the outer \<open>try\<close>: the fallback runs in the handler of the inner \<open>try\<close>, has
  a handler of its own, and every path that does not return ends in \<open>return False\<close>.
\<close>

definition download_body :: "download_world \<Rightarrow> bool outcome \<times> dl_event list" where
  "download_body w =
     (case primary_attempt w of
        (Returned (Some b), ev) \<Rightarrow> (Returned b, ev)
      | (Returned None, ev) \<Rightarrow> (Returned False, ev)
      | (Raised, ev) \<Rightarrow>
          (case fallback_attempt w of
             (Returned (Some b), ev2) \<Rightarrow> (Returned b, ev @ ev2)
           | (Returned None, ev2) \<Rightarrow> (Returned False, ev @ ev2)
           | (Raised, ev2) \<Rightarrow> (Returned False, ev @ ev2)))"

definition download_pdf :: "download_world \<Rightarrow> bool outcome \<times> dl_event list" where
  "download_pdf w =
     (case download_body w of
        (Raised, ev) \<Rightarrow> (Returned False, ev)
      | (Returned b, ev) \<Rightarrow> (Returned b, ev))"

definition primary_raises :: "download_world \<Rightarrow> bool" where
  "primary_raises w = (fst (primary_attempt w) = Raised)"

definition fallback_succeeds :: "download_world \<Rightarrow> bool" where
  "fallback_succeeds w = (fst (fallback_attempt w) = Returned (Some True))"

section \<open>Crawl orchestrator (scrape\_issues)\<close>

text \<open>
  A row of the issue stores, and one entry of \<open>page_issues\<close>: the download link (the
  empty text when the article has no link element, \<open>None\<close> when the element has no
  \<open>href\<close>), the path of the PDF as a list of segments, and the row.
\<close>

record issue_record =
  publication_issn :: string
  issue_uuid :: string
  issue_name :: string
  date :: string
  number :: string
  number_of_pages :: string
  issue_link :: string

record issue_data =
  download_link :: "string option"
  pdf_path :: "string list option"
  issue_rec :: issue_record

text \<open>
  What the page shows for one article: the element of the name (missing, or there with
  its parts), the download link (missing, or there with its \<open>href\<close>), whether creating the
  directory of the issue raises, and what the network does if the PDF is downloaded.
\<close>

datatype name_elem = NoNameElem | NameElem "name_part list option"

datatype link_elem = NoLinkElem | LinkElem "string option"

record article =
  art_name :: name_elem
  art_link :: link_elem
  art_mkdir_raises :: bool
  art_download :: download_world

text \<open>
  The environment of a run: \<open>url_id\<close> is the first value of the query parameter \<open>id\<close>
  as \<open>urlparse\<close> and \<open>parse_qs\<close> find it (\<open>None\<close> when there is none or the library
  raises), \<open>uuid4\<close> is the sequence of random identifiers, \<open>as_completed\<close> is the order
  in which the downloads of a page finish, and \<open>listing\<close> gives the pages of articles the
  browser shows for a publication (\<open>None\<close> when loading the first page raises).
\<close>

type_synonym completed = "issue_data \<times> (bool \<times> issue_record) outcome \<times> dl_event list"

record world =
  url_id :: "string \<Rightarrow> string option"
  uuid4 :: "nat \<Rightarrow> string"
  as_completed :: "completed list \<Rightarrow> completed list"
  listing :: "publication \<Rightarrow> article list list option"

definition article_link :: "article \<Rightarrow> string option" where
  "article_link a = (case art_link a of NoLinkElem \<Rightarrow> Some [] | LinkElem h \<Rightarrow> h)"

definition parse_download_link_id :: "world \<Rightarrow> string option \<Rightarrow> string" where
  "parse_download_link_id W link =
     (case link of
        None \<Rightarrow> []
      | Some l \<Rightarrow> if l = [] then [] else (case url_id W l of Some v \<Rightarrow> v | None \<Rightarrow> []))"

definition ISSUES_DIR :: "string list" where
  "ISSUES_DIR = [''data'', ''issues'']"

text \<open>
  One pass of the loop over the articles of a page (lines 427 to 495): the entry to add to
  \<open>page_issues\<close>, if any, and the number of random identifiers drawn so far.
\<close>

definition collect_issue ::
  "world \<Rightarrow> publication \<Rightarrow> string set \<Rightarrow> nat \<Rightarrow> article
     \<Rightarrow> (issue_data \<times> download_world) option \<times> nat" where
  "collect_issue W pub existing n a =
     (case art_name a of
        NoNameElem \<Rightarrow> (None, n)
      | NameElem parts \<Rightarrow>
          (case parse_issue_name_parts parts of (name, dt, num, pages) \<Rightarrow>
            let link = article_link a;
                download_id = (if truthy link then parse_download_link_id W link else []);
                uuid0 = (if truthy link \<and> download_id \<noteq> [] then download_id else []);
                ilink = (if truthy link \<and> download_id \<noteq> []
                         then ''http://hemerotecadigital.bne.es/hd/es/results?id='' @ download_id
                         else []);
                uuid = (if uuid0 = [] then uuid4 W n else uuid0);
                n' = (if uuid0 = [] then Suc n else n)
            in
              if uuid \<in> existing then (None, n')
              else if art_mkdir_raises a then (None, n')
              else
                let issue_dir = ISSUES_DIR @
                      [collection_safe pub, ''publication-'' @ issn_safe pub, ''issue-'' @ uuid]
                in (Some (\<lparr>download_link = link,
                           pdf_path = (if truthy link then Some (issue_dir @ [uuid @ ''.pdf''])
                                       else None),
                           issue_rec = \<lparr>publication_issn = issn pub, issue_uuid = uuid,
                             issue_name = name, date = dt, number = num,
                             number_of_pages = pages, issue_link = ilink\<rparr>\<rparr>,
                         art_download a), n')))"

fun collect_page ::
  "world \<Rightarrow> publication \<Rightarrow> string set \<Rightarrow> nat \<Rightarrow> article list
     \<Rightarrow> (issue_data \<times> download_world) list \<times> nat" where
  "collect_page W pub existing n [] = ([], n)"
| "collect_page W pub existing n (a # as) =
     (case collect_issue W pub existing n a of (r, n1) \<Rightarrow>
        (case collect_page W pub existing n1 as of (rs, n2) \<Rightarrow>
           ((case r of None \<Rightarrow> rs | Some d \<Rightarrow> d # rs), n2)))"

text \<open>
  \<open>process_issue_download\<close>; the second argument stands for the browser and the network
  the source reaches through \<open>driver\<close>.
\<close>

definition process_issue_download ::
  "issue_data \<Rightarrow> download_world \<Rightarrow> (bool \<times> issue_record) outcome \<times> dl_event list" where
  "process_issue_download d w =
     (if truthy (download_link d) \<and> pdf_path d \<noteq> None then
        (case download_pdf w of
           (Returned ok, ev) \<Rightarrow> (Returned (ok, issue_rec d), ev)
         | (Raised, ev) \<Rightarrow> (Raised, ev))
      else (Returned (True, issue_rec d), []))"

text \<open>
  The state of a run: the in-memory key set, the number of random identifiers drawn, the
  rows appended to the success store and to the failure store, and the identifiers of the
  issues whose download was started. Writing a row is taken to succeed.
\<close>

record crawl_state =
  existing_issue_uuids :: "string set"
  uuid_count :: nat
  issues_csv :: "issue_record list"
  failures_csv :: "issue_record list"
  dispatched :: "string list"

fun record_results :: "crawl_state \<Rightarrow> completed list \<Rightarrow> crawl_state" where
  "record_results st [] = st"
| "record_results st ((d, res, ev) # rest) =
     record_results
       (let st1 = st\<lparr>dispatched := dispatched st @
                    (if ev = [] then [] else [issue_uuid (issue_rec d)])\<rparr>
        in case res of
             Returned (True, r) \<Rightarrow>
               st1\<lparr>issues_csv := issues_csv st1 @ [r],
                   existing_issue_uuids := insert (issue_uuid r) (existing_issue_uuids st1)\<rparr>
           | Returned (False, r) \<Rightarrow> st1\<lparr>failures_csv := failures_csv st1 @ [r]\<rparr>
           | Raised \<Rightarrow> st1)
       rest"

definition run_page :: "world \<Rightarrow> crawl_state \<Rightarrow> publication \<Rightarrow> article list \<Rightarrow> crawl_state" where
  "run_page W st pub articles =
     (case collect_page W pub (existing_issue_uuids st) (uuid_count st) articles of
        (page_issues, n) \<Rightarrow>
          if page_issues = [] then st\<lparr>uuid_count := n\<rparr>
          else
            record_results (st\<lparr>uuid_count := n\<rparr>)
              (as_completed W (map (\<lambda>(d, w). (d, process_issue_download d w)) page_issues)))"

text \<open>The pages of one publication, in the order visited; a page without articles ends it.\<close>

fun run_pages :: "world \<Rightarrow> crawl_state \<Rightarrow> publication \<Rightarrow> article list list \<Rightarrow> crawl_state" where
  "run_pages W st pub [] = st"
| "run_pages W st pub (articles # rest) =
     (if articles = [] then st else run_pages W (run_page W st pub articles) pub rest)"

fun run_publications :: "world \<Rightarrow> crawl_state \<Rightarrow> publication list \<Rightarrow> crawl_state" where
  "run_publications W st [] = st"
| "run_publications W st (pub # pubs) =
     run_publications W
       (case listing W pub of None \<Rightarrow> st | Some pages \<Rightarrow> run_pages W st pub pages) pubs"

text \<open>\<open>scrape_issues\<close> returns at once, here \<open>None\<close>, when there is no publication.\<close>

definition scrape_issues :: "world \<Rightarrow> publication list \<Rightarrow> csv_file \<Rightarrow> crawl_state option" where
  "scrape_issues W publications store =
     (if publications = [] then None
      else
        (case get_existing_issue_uuids store of
           ((existing, last_processed_issn), warned) \<Rightarrow>
             Some (run_publications W
               \<lparr>existing_issue_uuids = existing, uuid_count = 0, issues_csv = [],
                failures_csv = [], dispatched = []\<rparr>
               (resume_publications last_processed_issn publications))))"

text \<open>
  What a list of finished downloads adds to the success store, to the failure store and to
  the downloads started, and the part of a list that was added to an earlier one.
\<close>

definition new_success :: "completed list \<Rightarrow> issue_record list" where
  "new_success rs =
     concat (map (\<lambda>(d, res, ev). case res of Returned (True, r) \<Rightarrow> [r] | _ \<Rightarrow> []) rs)"

definition new_failure :: "completed list \<Rightarrow> issue_record list" where
  "new_failure rs =
     concat (map (\<lambda>(d, res, ev). case res of Returned (False, r) \<Rightarrow> [r] | _ \<Rightarrow> []) rs)"

definition new_dispatched :: "completed list \<Rightarrow> string list" where
  "new_dispatched rs =
     concat (map (\<lambda>(d, res, ev). if ev = [] then [] else [issue_uuid (issue_rec d)]) rs)"

definition appended :: "'a list \<Rightarrow> 'a list \<Rightarrow> 'a list" where
  "appended old new = drop (length old) new"

section \<open>Page splitting (process\_pdf in src/issues/paginate\_issues.py)\<close>

text \<open>
  The destination directory is absent or holds files, listed by name with their content;
  names are distinct. \<open>glob\<close> stands for \<open>glob.glob\<close>: given the pattern
  \<open>{stem}-p*.pdf\<close> and the names in the directory, it gives the paths the library
  returns. Nothing is assumed of it, so a stem or a directory name with the characters the
  pattern language treats specially (\<open>*\<close>, \<open>?\<close>, \<open>[\<close>) is covered. Opening the
  source gives its pages, or raises (\<open>None\<close>). Writing page \<open>n\<close> creates the file with
  its content, or raises before the file exists, or raises after creating it and leaves
  what was written. Creating the directory is taken to succeed.
\<close>

type_synonym 'c directory = "(string \<times> 'c) list"

datatype 'c write_outcome = Written 'c | OpenRaises | WriteRaises 'c

datatype pdf_result = Skipped | Processed nat | Failed

definition digit_chr :: "nat \<Rightarrow> char" where
  "digit_chr d = char_of (48 + d)"

fun str_nat :: "nat \<Rightarrow> string" where
  "str_nat n = (if n < 10 then [digit_chr n] else str_nat (n div 10) @ [digit_chr (n mod 10)])"

declare str_nat.simps [simp del]

definition page_name :: "string \<Rightarrow> nat \<Rightarrow> string" where
  "page_name pdf_stem page_num = pdf_stem @ ''-p'' @ str_nat page_num @ ''.pdf''"

definition dir_files :: "'c directory option \<Rightarrow> 'c directory" where
  "dir_files dest = (case dest of None \<Rightarrow> [] | Some files \<Rightarrow> files)"

definition already_split ::
  "(string \<Rightarrow> string list \<Rightarrow> string list) \<Rightarrow> string \<Rightarrow> 'c directory option \<Rightarrow> nat \<Rightarrow> bool" where
  "already_split glob pdf_stem dest num_pages =
     (case dest of
        None \<Rightarrow> False
      | Some files \<Rightarrow>
          length (glob (pdf_stem @ ''-p*.pdf'') (map fst files)) = num_pages)"

text \<open>
  The loop over \<open>enumerate(reader.pages)\<close>; the second component tells whether a write
  raised, which ends the loop.
\<close>

fun split_pages ::
  "(nat \<Rightarrow> 'p \<Rightarrow> 'c write_outcome) \<Rightarrow> string \<Rightarrow> (nat \<times> 'p) list \<Rightarrow> 'c directory
     \<Rightarrow> 'c directory \<times> bool" where
  "split_pages wr pdf_stem [] files = (files, False)"
| "split_pages wr pdf_stem ((i, page) # rest) files =
     (let page_num = i + 1; output = page_name pdf_stem page_num in
      if output \<in> set (map fst files) then split_pages wr pdf_stem rest files
      else
        (case wr page_num page of
           Written c \<Rightarrow> split_pages wr pdf_stem rest (files @ [(output, c)])
         | OpenRaises \<Rightarrow> (files, True)
         | WriteRaises c \<Rightarrow> (files @ [(output, c)], True)))"

definition process_pdf ::
  "(string \<Rightarrow> string list \<Rightarrow> string list) \<Rightarrow> (nat \<Rightarrow> 'p \<Rightarrow> 'c write_outcome) \<Rightarrow> string
     \<Rightarrow> 'p list option \<Rightarrow> 'c directory option \<Rightarrow> 'c directory option \<times> pdf_result" where
  "process_pdf glob wr pdf_stem reader dest =
     (case reader of
        None \<Rightarrow> (dest, Failed)
      | Some pages \<Rightarrow>
          let num_pages = length pages in
          if already_split glob pdf_stem dest num_pages then (dest, Skipped)
          else
            (case split_pages wr pdf_stem (enumerate 0 pages) (dir_files dest) of
               (files, raised) \<Rightarrow>
                 (Some files, if raised then Failed else Processed num_pages)))"

section \<open>Example data\<close>

definition example_pub :: "string \<Rightarrow> string \<Rightarrow> publication" where
  "example_pub i c =
     \<lparr>pub_uuid = ''p-'' @ i, issn = i, collection = c, title = ''Title'',
      issues_link = ''/hd/es/results?parent='' @ i\<rparr>"

definition example_row :: "string \<Rightarrow> string \<Rightarrow> csv_row" where
  "example_row i u = [''publication_issn'' \<mapsto> Some i, ''issue_uuid'' \<mapsto> Some u]"

definition example_world :: world where
  "example_world =
     \<lparr>url_id = (\<lambda>l. if startswith l ''/hd/es/pdf?id='' then Some (drop 14 l) else None),
      uuid4 = (\<lambda>n. ''random-'' @ replicate n CHR ''x''),
      as_completed = rev,
      listing = (\<lambda>p. Some [])\<rparr>"

definition example_download :: download_world where
  "example_download =
     \<lparr>http = Response 200 False, click_raises = False, polls = [], move_raises = False\<rparr>"

definition example_article :: "string option \<Rightarrow> article" where
  "example_article h =
     \<lparr>art_name = NameElem (Some [NamePart True ''La Gaceta'', NamePart False ''1/3/1850'']),
      art_link = (case h of None \<Rightarrow> NoLinkElem | Some l \<Rightarrow> LinkElem (Some l)),
      art_mkdir_raises = False,
      art_download = example_download\<rparr>"

definition example_state :: "string set \<Rightarrow> crawl_state" where
  "example_state keys =
     \<lparr>existing_issue_uuids = keys, uuid_count = 0, issues_csv = [], failures_csv = [],
      dispatched = []\<rparr>"

text \<open>
  What \<open>glob.glob\<close> returns for a pattern whose one special character is a star, in a
  directory whose name has none: the names that start with the text before the star and
  end, after it, with the text behind the star.
\<close>

definition example_glob :: "string \<Rightarrow> string list \<Rightarrow> string list" where
  "example_glob pattern names =
     filter (\<lambda>name.
        startswith name (fst (split_first CHR ''*'' pattern)) \<and>
        endswith name (snd (split_first CHR ''*'' pattern)) \<and>
        length (fst (split_first CHR ''*'' pattern)) + length (snd (split_first CHR ''*'' pattern))
          \<le> length name) names"

definition example_write :: "nat \<Rightarrow> string \<Rightarrow> string write_outcome" where
  "example_write n page = Written (''%PDF '' @ page)"

definition example_pages :: "string list" where
  "example_pages = [''one'', ''two'', ''three'', ''four'', ''five'']"

definition example_dir3 :: "string directory" where
  "example_dir3 = [(''abc-p1.pdf'', ''x''), (''abc-p2.pdf'', ''y''), (''abc-p3.pdf'', ''z'')]"

definition example_dir5 :: "string directory" where
  "example_dir5 = example_dir3 @ [(''abc-p4.pdf'', ''u''), (''abc-p5.pdf'', ''v'')]"

section \<open>Properties of the date-range parser\<close>

lemma endswith_chr_mem: "endswith t [c] \<Longrightarrow> c \<in> set t"
proof -
  assume h: "endswith t [c]"
  then have "1 \<le> length t" and "drop (length t - 1) t = [c]" by (simp_all add: endswith_def)
  then have "c \<in> set (drop (length t - 1) t)" by simp
  then show ?thesis by (rule in_set_dropD)
qed

lemma startswith_chr_mem: "startswith t [c] \<Longrightarrow> c \<in> set t"
proof -
  assume "startswith t [c]"
  then have "take 1 t = [c]" by (simp add: startswith_def)
  then have "c \<in> set (take 1 t)" by simp
  then show ?thesis by (rule in_set_takeD)
qed

lemma single_path:
  assumes "CHR ''-'' \<notin> set (strip s)"
  shows "parse_date_range (Some s) =
    (if strip s = [] then (None, None) else (strptime_dmy (strip s), strptime_dmy (strip s)))"
proof -
  have a: "\<not> endswith (strip s) ''-''" using assms endswith_chr_mem by blast
  have b: "\<not> startswith (strip s) ''-''" using assms startswith_chr_mem by blast
  show ?thesis using a b assms
    by (simp add: parse_date_range_def Let_def split: option.splits)
qed

lemma day_group_shape:
  "(v, r) \<in> set (day_group s) \<Longrightarrow> \<exists>p. s = p @ r \<and> p \<noteq> [] \<and> CHR ''-'' \<notin> set p"
  by (cases s rule: day_group.cases) (auto simp: is_digit_def is_digit19_def Let_def split: if_splits)

lemma month_group_shape:
  "(v, r) \<in> set (month_group s) \<Longrightarrow> \<exists>p. s = p @ r \<and> p \<noteq> [] \<and> CHR ''-'' \<notin> set p"
  by (cases s rule: month_group.cases) (auto simp: is_digit_def is_digit19_def Let_def split: if_splits)

lemma year_group_shape:
  "(v, r) \<in> set (year_group s) \<Longrightarrow> \<exists>p. s = p @ r \<and> p \<noteq> [] \<and> CHR ''-'' \<notin> set p"
  by (cases s rule: year_group.cases) (auto simp: is_digit_def Let_def split: if_splits)

lemma slash_shape: "r \<in> set (slash s) \<Longrightarrow> s = CHR ''/'' # r"
  by (cases s) (auto split: if_splits)

lemma dmy_regex_shape:
  assumes "(d, m, y, r) \<in> set (dmy_regex s)"
  shows "\<exists>p. s = p @ r \<and> p \<noteq> [] \<and> CHR ''-'' \<notin> set p"
proof -
  from assms obtain r0 r1 r2 r3 where
    d: "(d, r0) \<in> set (day_group s)" and s1: "r1 \<in> set (slash r0)" and
    m: "(m, r2) \<in> set (month_group r1)" and s2: "r3 \<in> set (slash r2)" and
    y: "(y, r) \<in> set (year_group r3)"
    by (auto simp: dmy_regex_def)
  from day_group_shape[OF d] obtain p0 where p0: "s = p0 @ r0" "p0 \<noteq> []" "CHR ''-'' \<notin> set p0" by blast
  from month_group_shape[OF m] obtain p1 where p1: "r1 = p1 @ r2" "CHR ''-'' \<notin> set p1" by blast
  from year_group_shape[OF y] obtain p2 where p2: "r3 = p2 @ r" "CHR ''-'' \<notin> set p2" by blast
  have "s = (p0 @ CHR ''/'' # p1 @ CHR ''/'' # p2) @ r"
    using p0 p1 p2 slash_shape[OF s1] slash_shape[OF s2] by simp
  moreover have "CHR ''-'' \<notin> set (p0 @ CHR ''/'' # p1 @ CHR ''/'' # p2)"
    using p0 p1 p2 by simp
  moreover have "p0 @ CHR ''/'' # p1 @ CHR ''/'' # p2 \<noteq> []" by simp
  ultimately show ?thesis by blast
qed

lemma strptime_dmy_shape:
  assumes "strptime_dmy t = Some d"
  shows "t \<noteq> [] \<and> CHR ''-'' \<notin> set t"
proof -
  from assms obtain dd m y ms where h: "dmy_regex t = (dd, m, y, []) # ms"
    by (auto simp: strptime_dmy_def split: list.splits if_splits)
  then have "(dd, m, y, []) \<in> set (dmy_regex t)" by simp
  from dmy_regex_shape[OF this] show ?thesis by auto
qed

lemma single_date:
  assumes "strptime_dmy (strip s) = Some d"
  shows "parse_date_range (Some s) = (Some d, Some d)"
  using strptime_dmy_shape[OF assms] single_path[of s] assms by simp

text \<open>
  Claim C6. \<open>parse_date_range\<close> maps the documented examples as stated: a full range gives
  both boundaries, an open start or an open end gives the one boundary that is there, a
  single date gives the same date twice, and an empty or missing input and the text
  \<open>not-a-date\<close> give two absent boundaries. For every input that is one date once
  stripped, start and end are both that date.
\<close>

theorem parse_date_range_examples:
  "parse_date_range (Some ''01/03/1850-31/12/1860'') =
     (Some \<lparr>year = 1850, month = 3, day = 1\<rparr>, Some \<lparr>year = 1860, month = 12, day = 31\<rparr>)
   \<and> parse_date_range (Some ''-31/12/1860'') = (None, Some \<lparr>year = 1860, month = 12, day = 31\<rparr>)
   \<and> parse_date_range (Some ''01/03/1850-'') = (Some \<lparr>year = 1850, month = 3, day = 1\<rparr>, None)
   \<and> parse_date_range (Some ''01/03/1850'') =
     (Some \<lparr>year = 1850, month = 3, day = 1\<rparr>, Some \<lparr>year = 1850, month = 3, day = 1\<rparr>)
   \<and> parse_date_range (Some '''') = (None, None)
   \<and> parse_date_range None = (None, None)
   \<and> parse_date_range (Some ''not-a-date'') = (None, None)
   \<and> (\<forall>s d. strptime_dmy (strip s) = Some d \<longrightarrow> parse_date_range (Some s) = (Some d, Some d))"
proof -
  have e1: "parse_date_range (Some ''01/03/1850-31/12/1860'') =
     (Some \<lparr>year = 1850, month = 3, day = 1\<rparr>, Some \<lparr>year = 1860, month = 12, day = 31\<rparr>)"
    by code_simp
  have e2: "parse_date_range (Some ''-31/12/1860'') =
     (None, Some \<lparr>year = 1860, month = 12, day = 31\<rparr>)"
    by code_simp
  have e3: "parse_date_range (Some ''01/03/1850-'') =
     (Some \<lparr>year = 1850, month = 3, day = 1\<rparr>, None)"
    by code_simp
  have e4: "parse_date_range (Some ''01/03/1850'') =
     (Some \<lparr>year = 1850, month = 3, day = 1\<rparr>, Some \<lparr>year = 1850, month = 3, day = 1\<rparr>)"
    by code_simp
  have e5: "parse_date_range (Some '''') = (None, None)"
    by code_simp
  have e6: "parse_date_range None = (None, None)"
    by (simp add: parse_date_range_def)
  have e7: "parse_date_range (Some ''not-a-date'') = (None, None)"
    by code_simp
  show ?thesis using e1 e2 e3 e4 e5 e6 e7 single_date by blast
qed

theorem parse_date_range_examples_witness:
  "strptime_dmy (strip '' 7/11/1905 '') = Some \<lparr>year = 1905, month = 11, day = 7\<rparr>
   \<and> parse_date_range (Some '' 7/11/1905 '') =
     (Some \<lparr>year = 1905, month = 11, day = 7\<rparr>, Some \<lparr>year = 1905, month = 11, day = 7\<rparr>)"
proof -
  have h: "strptime_dmy (strip '' 7/11/1905 '') = Some \<lparr>year = 1905, month = 11, day = 7\<rparr>"
    by code_simp
  show ?thesis using h parse_date_range_examples by blast
qed

section \<open>Properties of the path segments\<close>

lemma has_double_dash_iff:
  "has_double_dash s = (\<exists>p q. s = p @ CHR ''-'' # CHR ''-'' # q)"
proof (induction s rule: has_double_dash.induct)
  case (1 a b r)
  show ?case
  proof
    assume "has_double_dash (a # b # r)"
    then consider "a = CHR ''-'' \<and> b = CHR ''-''" | "has_double_dash (b # r)" by auto
    then show "\<exists>p q. a # b # r = p @ CHR ''-'' # CHR ''-'' # q"
    proof cases
      case 1
      then have "a # b # r = [] @ CHR ''-'' # CHR ''-'' # r" by simp
      then show ?thesis by blast
    next
      case 2
      with "1.IH" obtain p q where "b # r = p @ CHR ''-'' # CHR ''-'' # q" by blast
      then have "a # b # r = (a # p) @ CHR ''-'' # CHR ''-'' # q" by simp
      then show ?thesis by blast
    qed
  next
    assume "\<exists>p q. a # b # r = p @ CHR ''-'' # CHR ''-'' # q"
    then obtain p q where pq: "a # b # r = p @ CHR ''-'' # CHR ''-'' # q" by blast
    show "has_double_dash (a # b # r)"
    proof (cases p)
      case Nil
      with pq show ?thesis by simp
    next
      case (Cons x p')
      with pq have "b # r = p' @ CHR ''-'' # CHR ''-'' # q" by simp
      with "1.IH" have "has_double_dash (b # r)" by blast
      then show ?thesis by simp
    qed
  qed
qed (auto simp: append_eq_Cons_conv)

lemma has_double_dash_rev: "has_double_dash (rev s) = has_double_dash s"
proof -
  have "\<And>t. has_double_dash t \<Longrightarrow> has_double_dash (rev t)"
  proof -
    fix t assume "has_double_dash t"
    then obtain p q where "t = p @ CHR ''-'' # CHR ''-'' # q" by (auto simp: has_double_dash_iff)
    then have "rev t = rev q @ CHR ''-'' # CHR ''-'' # rev p" by simp
    then show "has_double_dash (rev t)" unfolding has_double_dash_iff by blast
  qed
  from this[of s] this[of "rev s"] show ?thesis by auto
qed

lemma has_double_dash_dropWhile: "has_double_dash (dropWhile P s) \<Longrightarrow> has_double_dash s"
proof -
  assume "has_double_dash (dropWhile P s)"
  then obtain p q where "dropWhile P s = p @ CHR ''-'' # CHR ''-'' # q"
    by (auto simp: has_double_dash_iff)
  then have "takeWhile P s @ dropWhile P s = (takeWhile P s @ p) @ CHR ''-'' # CHR ''-'' # q"
    by simp
  then have "s = (takeWhile P s @ p) @ CHR ''-'' # CHR ''-'' # q" by simp
  then show ?thesis unfolding has_double_dash_iff by blast
qed

lemma has_double_dash_strip_chr: "has_double_dash (strip_chr c s) \<Longrightarrow> has_double_dash s"
  unfolding strip_chr_def rstrip_chr_def lstrip_chr_def
  using has_double_dash_dropWhile has_double_dash_rev by blast

lemma collapse_runs_head:
  "collapse_runs s = a # r \<Longrightarrow> s \<noteq> [] \<and> a = (if dash_or_space (hd s) then CHR ''-'' else hd s)"
  by (cases s) (auto split: if_splits)

lemma dash_is_dash_or_space: "dash_or_space CHR ''-''"
  by (simp add: dash_or_space_def)

lemma collapse_runs_no_double_dash: "\<not> has_double_dash (collapse_runs s)"
proof (induction s rule: collapse_runs.induct)
  case 1
  show ?case by simp
next
  case (2 c cs)
  show ?case
  proof (cases "dash_or_space c")
    case True
    let ?t = "dropWhile dash_or_space cs"
    have ih: "\<not> has_double_dash (collapse_runs ?t)" using 2 True by simp
    show ?thesis
    proof (cases "collapse_runs ?t")
      case Nil
      with True show ?thesis by simp
    next
      case (Cons a r)
      from collapse_runs_head[OF Cons] have ne: "?t \<noteq> []"
        and a: "a = (if dash_or_space (hd ?t) then CHR ''-'' else hd ?t)" by auto
      from ne have "\<not> dash_or_space (hd ?t)" by (rule hd_dropWhile)
      with a have "a = hd ?t" "\<not> dash_or_space a" by auto
      then have "a \<noteq> CHR ''-''" using dash_is_dash_or_space by auto
      with ih Cons True show ?thesis by simp
    qed
  next
    case False
    then have c: "c \<noteq> CHR ''-''" using dash_is_dash_or_space by auto
    have ih: "\<not> has_double_dash (collapse_runs cs)" using 2 False by simp
    show ?thesis
    proof (cases "collapse_runs cs")
      case Nil
      with False show ?thesis by simp
    next
      case (Cons a r)
      with ih c False show ?thesis by simp
    qed
  qed
qed

lemma set_collapse_runs: "set (collapse_runs s) \<subseteq> insert CHR ''-'' {c \<in> set s. \<not> dash_or_space c}"
proof (induction s rule: collapse_runs.induct)
  case 1
  show ?case by simp
next
  case (2 c cs)
  have "set (dropWhile dash_or_space cs) \<subseteq> set cs" by (rule set_dropWhileD[THEN subsetI]) 
  with 2 show ?case by (auto split: if_splits)
qed

lemma set_strip_chr: "set (strip_chr c s) \<subseteq> set s"
  unfolding strip_chr_def rstrip_chr_def lstrip_chr_def
  by (metis set_dropWhileD set_rev subsetI)

lemma set_sub_disallowed: "x \<in> set (sub_disallowed s) \<Longrightarrow> \<not> is_disallowed x"
  by (auto simp: sub_disallowed_def is_disallowed_def)

lemma strip_chr_not_startswith: "\<not> startswith (strip_chr c s) [c]"
proof
  define t where "t = dropWhile (\<lambda>x. x = c) s"
  define u where "u = rev (dropWhile (\<lambda>x. x = c) (rev t))"
  assume "startswith (strip_chr c s) [c]"
  then have st: "take 1 u = [c]"
    by (simp add: startswith_def strip_chr_def rstrip_chr_def lstrip_chr_def u_def t_def)
  then obtain r where ur: "u = c # r" by (cases u) auto
  have "u @ rev (takeWhile (\<lambda>x. x = c) (rev t)) = rev (rev t)"
    unfolding u_def rev_append[symmetric] by simp
  then have dec: "t = c # r @ rev (takeWhile (\<lambda>x. x = c) (rev t))" using ur by simp
  then have tne: "t \<noteq> []" and hdt: "hd t = c" by (metis list.distinct(1), metis list.sel(1))
  from tne have "\<not> (hd t = c)" unfolding t_def by (rule hd_dropWhile)
  with hdt show False by simp
qed

lemma strip_chr_not_endswith: "\<not> endswith (strip_chr c s) [c]"
proof
  define t where "t = dropWhile (\<lambda>x. x = c) s"
  define d where "d = dropWhile (\<lambda>x. x = c) (rev t)"
  assume e: "endswith (strip_chr c s) [c]"
  then have len: "1 \<le> length d" and dr: "drop (length d - 1) (rev d) = [c]"
    by (simp_all add: endswith_def strip_chr_def rstrip_chr_def lstrip_chr_def d_def t_def)
  from len obtain a r where ar: "d = a # r" by (cases d) auto
  with dr have "a = c" by simp
  moreover have "d \<noteq> []" using ar by simp
  then have "\<not> (hd d = c)" unfolding d_def by (rule hd_dropWhile)
  ultimately show False using ar by simp
qed

lemma clean_unknown: "clean_segment ''unknown''"
  by (simp add: clean_segment_def is_disallowed_def startswith_def endswith_def)

lemma sanitize_dirname_clean: "clean_segment (sanitize_dirname name)"
proof (cases "name = []")
  case True
  then show ?thesis using clean_unknown by (simp add: sanitize_dirname_def)
next
  case False
  let ?m = "collapse_runs (sub_disallowed name)"
  have r: "sanitize_dirname name = strip_chr CHR ''-'' ?m"
    using False by (simp add: sanitize_dirname_def)
  have a: "\<not> has_double_dash (strip_chr CHR ''-'' ?m)"
    using has_double_dash_strip_chr collapse_runs_no_double_dash by blast
  have "\<And>x. x \<in> set (strip_chr CHR ''-'' ?m) \<Longrightarrow> \<not> is_disallowed x"
  proof -
    fix x assume "x \<in> set (strip_chr CHR ''-'' ?m)"
    then have "x \<in> set ?m" using set_strip_chr by blast
    then have "x = CHR ''-'' \<or> x \<in> set (sub_disallowed name)" using set_collapse_runs by blast
    then show "\<not> is_disallowed x"
    proof
      assume "x = CHR ''-''" then show ?thesis by (simp add: is_disallowed_def)
    next
      assume "x \<in> set (sub_disallowed name)" then show ?thesis by (rule set_sub_disallowed)
    qed
  qed
  then have b: "\<not> list_ex is_disallowed (strip_chr CHR ''-'' ?m)" by (auto simp: list_ex_iff)
  show ?thesis unfolding r clean_segment_def
    using a b strip_chr_not_startswith strip_chr_not_endswith by simp
qed

lemma sanitize_dirname_no_space: "\<not> list_ex is_space (sanitize_dirname name)"
proof (cases "name = []")
  case True
  then show ?thesis by (simp add: sanitize_dirname_def is_space_def)
next
  case False
  let ?m = "collapse_runs (sub_disallowed name)"
  have "\<And>x. x \<in> set (strip_chr CHR ''-'' ?m) \<Longrightarrow> \<not> is_space x"
  proof -
    fix x assume "x \<in> set (strip_chr CHR ''-'' ?m)"
    then have "x \<in> set ?m" using set_strip_chr by blast
    then have "x = CHR ''-'' \<or> \<not> dash_or_space x" using set_collapse_runs by blast
    then show "\<not> is_space x" by (auto simp: dash_or_space_def is_space_def)
  qed
  then show ?thesis using False by (auto simp: list_ex_iff sanitize_dirname_def)
qed

lemma clean_unknown_collection: "clean_segment ''unknown_collection''"
  by (simp add: clean_segment_def is_disallowed_def startswith_def endswith_def)

lemma clean_unknown_issn: "clean_segment ''unknown_issn''"
  by (simp add: clean_segment_def is_disallowed_def startswith_def endswith_def)

text \<open>
  Claim C7, as amended. Every sanitized name is free of the disallowed path characters and
  of whitespace, has no two dashes in a row and no dash at either end, and so are the two
  directory segments built from a publication. A collection or ISSN that is empty gives the
  segment \<open>unknown\<close>; one that is not empty but sanitizes to nothing (dashes, whitespace
  and disallowed characters only) gives \<open>unknown_collection\<close> or \<open>unknown_issn\<close>.
\<close>

theorem sanitize_dirname_segments:
  "clean_segment (sanitize_dirname name)
   \<and> \<not> list_ex is_space (sanitize_dirname name)
   \<and> clean_segment (collection_safe pub)
   \<and> clean_segment (issn_safe pub)
   \<and> collection_safe pub =
       (if collection pub = [] then ''unknown''
        else if sanitize_dirname (collection pub) = [] then ''unknown_collection''
        else sanitize_dirname (collection pub))
   \<and> issn_safe pub =
       (if issn pub = [] then ''unknown''
        else if sanitize_dirname (issn pub) = [] then ''unknown_issn''
        else sanitize_dirname (issn pub))"
proof -
  have c: "clean_segment (collection_safe pub)"
    using sanitize_dirname_clean[of "collection pub"] clean_unknown_collection
    by (simp add: collection_safe_def Let_def)
  have i: "clean_segment (issn_safe pub)"
    using sanitize_dirname_clean[of "issn pub"] clean_unknown_issn
    by (simp add: issn_safe_def Let_def)
  have ce: "collection_safe pub =
       (if collection pub = [] then ''unknown''
        else if sanitize_dirname (collection pub) = [] then ''unknown_collection''
        else sanitize_dirname (collection pub))"
    by (simp add: collection_safe_def Let_def sanitize_dirname_def)
  have ie: "issn_safe pub =
       (if issn pub = [] then ''unknown''
        else if sanitize_dirname (issn pub) = [] then ''unknown_issn''
        else sanitize_dirname (issn pub))"
    by (simp add: issn_safe_def Let_def sanitize_dirname_def)
  show ?thesis using sanitize_dirname_clean sanitize_dirname_no_space c i ce ie by blast
qed

theorem sanitize_dirname_segments_witness:
  "collection_safe \<lparr>pub_uuid = ''u1'', issn = ''0000-0000'', collection = ''Guerra civil: 1936/39 *'',
       title = ''t'', issues_link = ''/hd/es/results?parent=1''\<rparr> = ''Guerra-civil-1936-39''
   \<and> clean_segment ''Guerra-civil-1936-39''
   \<and> collection_safe \<lparr>pub_uuid = ''u2'', issn = '':'', collection = ''/ -'',
       title = ''t'', issues_link = ''/hd/es/results?parent=2''\<rparr> = ''unknown_collection''
   \<and> issn_safe \<lparr>pub_uuid = ''u2'', issn = '':'', collection = ''/ -'',
       title = ''t'', issues_link = ''/hd/es/results?parent=2''\<rparr> = ''unknown_issn''"
proof -
  have a: "sanitize_dirname ''Guerra civil: 1936/39 *'' = ''Guerra-civil-1936-39''"
    by code_simp
  have b: "sanitize_dirname ''/ -'' = []"
    by code_simp
  have c: "sanitize_dirname '':'' = []"
    by code_simp
  show ?thesis
    using a b c
      sanitize_dirname_segments[of "''Guerra civil: 1936/39 *''"
        "\<lparr>pub_uuid = ''u1'', issn = ''0000-0000'', collection = ''Guerra civil: 1936/39 *'',
          title = ''t'', issues_link = ''/hd/es/results?parent=1''\<rparr>"]
      sanitize_dirname_segments[of "''/ -''"
        "\<lparr>pub_uuid = ''u2'', issn = '':'', collection = ''/ -'',
          title = ''t'', issues_link = ''/hd/es/results?parent=2''\<rparr>"]
    by simp
qed

text \<open>
  The claim as written fails for a publication whose collection and ISSN are empty: both
  segments are \<open>unknown\<close>, not \<open>unknown_collection\<close> and \<open>unknown_issn\<close>.
\<close>

theorem empty_segment_counterexample:
  "collection_safe \<lparr>pub_uuid = ''u3'', issn = [], collection = [],
       title = ''t'', issues_link = ''/hd/es/results?parent=3''\<rparr> \<noteq> ''unknown_collection''
   \<and> issn_safe \<lparr>pub_uuid = ''u3'', issn = [], collection = [],
       title = ''t'', issues_link = ''/hd/es/results?parent=3''\<rparr> \<noteq> ''unknown_issn''"
  by (simp add: collection_safe_def issn_safe_def sanitize_dirname_def)

section \<open>Properties of the name-part extraction\<close>

lemma name_parts_loop_stale:
  "StalePart \<in> set ps \<Longrightarrow> name_parts_loop acc ps = None"
proof (induction ps arbitrary: acc)
  case Nil
  then show ?case by simp
next
  case (Cons p ps)
  show ?case
  proof (cases p)
    case StalePart
    then show ?thesis by simp
  next
    case (NamePart strong raw)
    with Cons.prems have "StalePart \<in> set ps" by simp
    then have "\<And>a. name_parts_loop a ps = None" by (rule Cons.IH)
    then show ?thesis by (simp split: option.splits)
  qed
qed

lemma name_part_step_readable:
  "\<exists>acc'. name_part_step acc (NamePart strong raw) = Some acc'"
proof -
  obtain a b c d where "acc = (a, b, c, d)" by (cases acc) auto
  then have "name_part_step acc (NamePart strong raw) \<noteq> None" by (simp add: Let_def)
  then show ?thesis by blast
qed

lemma name_parts_loop_readable:
  "StalePart \<notin> set ps \<Longrightarrow> \<exists>r. name_parts_loop acc ps = Some r"
proof (induction ps arbitrary: acc)
  case Nil
  show ?case by (simp del: split_paired_Ex)
next
  case (Cons p ps)
  from Cons.prems obtain strong raw where p: "p = NamePart strong raw"
    by (cases p) auto
  from name_part_step_readable obtain acc' where
    s: "name_part_step acc (NamePart strong raw) = Some acc'" by blast
  from Cons.prems have "StalePart \<notin> set ps" by simp
  then have "\<exists>r. name_parts_loop acc' ps = Some r" by (rule Cons.IH)
  with p s show ?case by simp
qed

text \<open>
  Claim C8, as amended. \<open>parse_issue_name_parts\<close> never raises. When the query for the
  parts raises, or any one part raises while it is read, all four fields come back empty,
  also those read before the failure; when every part can be read, the fields are those
  the loop over the parts assigns.
\<close>

theorem parse_issue_name_parts_all_or_nothing:
  "parse_issue_name_parts None = no_fields
   \<and> (StalePart \<in> set ps \<longrightarrow> parse_issue_name_parts (Some ps) = no_fields)
   \<and> (StalePart \<notin> set ps \<longrightarrow>
        name_parts_loop no_fields ps = Some (parse_issue_name_parts (Some ps)))"
proof -
  have a: "parse_issue_name_parts None = no_fields"
    by (simp add: parse_issue_name_parts_def)
  have b: "StalePart \<in> set ps \<Longrightarrow> parse_issue_name_parts (Some ps) = no_fields"
    using name_parts_loop_stale[of ps no_fields] by (simp add: parse_issue_name_parts_def)
  have c: "StalePart \<notin> set ps \<Longrightarrow>
        name_parts_loop no_fields ps = Some (parse_issue_name_parts (Some ps))"
  proof -
    assume "StalePart \<notin> set ps"
    then obtain r where "name_parts_loop no_fields ps = Some r"
      using name_parts_loop_readable by blast
    then show ?thesis by (simp add: parse_issue_name_parts_def)
  qed
  show ?thesis using a b c by blast
qed

theorem parse_issue_name_parts_all_or_nothing_witness:
  "StalePart \<in> set [NamePart True ''La Gaceta'', StalePart, NamePart False ''1/3/1850'']
   \<and> parse_issue_name_parts (Some [NamePart True ''La Gaceta'', StalePart, NamePart False ''1/3/1850''])
       = ([], [], [], [])
   \<and> StalePart \<notin> set [NamePart True ''La Gaceta'', NamePart False ''1/3/1850'']
   \<and> parse_issue_name_parts (Some [NamePart True ''La Gaceta'', NamePart False ''1/3/1850''])
       = (''La Gaceta'', ''1/3/1850'', [], [])"
proof -
  have l: "name_parts_loop no_fields [NamePart True ''La Gaceta'', NamePart False ''1/3/1850'']
      = Some (''La Gaceta'', ''1/3/1850'', [], [])"
    by code_simp
  show ?thesis
    using l
      parse_issue_name_parts_all_or_nothing[of
        "[NamePart True ''La Gaceta'', StalePart, NamePart False ''1/3/1850'']"]
      parse_issue_name_parts_all_or_nothing[of
        "[NamePart True ''La Gaceta'', NamePart False ''1/3/1850'']"]
    by (simp add: no_fields_def)
qed

text \<open>
  The claim as written fails: the name is read from the first part, the second part
  raises, and the name is returned empty.
\<close>

theorem name_part_failure_counterexample:
  "fst (parse_issue_name_parts (Some [NamePart True ''La Gaceta''])) = ''La Gaceta''
   \<and> fst (parse_issue_name_parts (Some [NamePart True ''La Gaceta'', StalePart])) \<noteq> ''La Gaceta''"
  by code_simp

section \<open>Properties of the record store\<close>

lemma scan_rows_eq:
  "scan_rows (e, l) rows =
     (e \<union> set (List.map_filter (\<lambda>r. cell r ''issue_uuid'') rows),
      (case last_option (List.map_filter (\<lambda>r. cell r ''publication_issn'') rows) of
         None \<Rightarrow> l | Some v \<Rightarrow> Some v))"
proof (induction rows arbitrary: e l)
  case Nil
  show ?case by (simp add: List.map_filter_simps last_option_def)
next
  case (Cons row rows)
  show ?case
    by (simp add: Cons.IH List.map_filter_simps last_option_def split: option.splits)
qed

lemma cell_nonempty: "cell r k = Some v \<Longrightarrow> v \<noteq> []"
  by (auto simp: cell_def split: option.splits if_splits)

lemma last_option_mem: "last_option xs = Some x \<Longrightarrow> x \<in> set xs"
  by (auto simp: last_option_def split: if_splits)

lemma checkpoint_nonempty:
  assumes "snd (fst (get_existing_issue_uuids f)) = Some c"
  shows "c \<noteq> []"
proof (cases f)
  case Missing
  with assms show ?thesis by (simp add: get_existing_issue_uuids_def)
next
  case (Present rows raises)
  with assms have
    "last_option (List.map_filter (\<lambda>r. cell r ''publication_issn'') rows) = Some c"
    by (simp add: get_existing_issue_uuids_def scan_rows_eq split: option.splits)
  then have "c \<in> set (List.map_filter (\<lambda>r. cell r ''publication_issn'') rows)"
    by (rule last_option_mem)
  then obtain r where "cell r ''publication_issn'' = Some c"
    by (auto simp: List.map_filter_def)
  then show ?thesis by (rule cell_nonempty)
qed

text \<open>
  Claim C3, as amended. For a store that is read to its end, the key set is the set of the
  non-empty values of the column \<open>issue_uuid\<close>, row by row from the top, and the
  checkpoint is the last non-empty value of the column \<open>publication_issn\<close>, absent when
  there is none: a last row whose ISSN is empty leaves the checkpoint of an earlier row.
\<close>

theorem get_existing_issue_uuids_scan:
  "fst (fst (get_existing_issue_uuids (Present rows False))) =
     set (List.map_filter (\<lambda>r. cell r ''issue_uuid'') rows)
   \<and> snd (fst (get_existing_issue_uuids (Present rows False))) =
     last_option (List.map_filter (\<lambda>r. cell r ''publication_issn'') rows)"
  by (simp add: get_existing_issue_uuids_def scan_rows_eq split: option.splits)

text \<open>
  The claim as written fails when the last row belongs to a publication without ISSN: the
  checkpoint is the ISSN of the row before, not the empty value of the last row.
\<close>

theorem checkpoint_last_row_counterexample:
  "snd (fst (get_existing_issue_uuids (Present
      [example_row ''0213-1234'' ''aaa'', example_row [] ''bbb''] False)))
     \<noteq> last_row_value [example_row ''0213-1234'' ''aaa'', example_row [] ''bbb'']
          ''publication_issn''"
  by (simp add: get_existing_issue_uuids_def cell_def last_row_value_def example_row_def)



section \<open>Properties of the resume point\<close>

lemma start_index_from_miss:
  "c \<notin> issn ` set ps \<Longrightarrow> start_index_from i c ps = - 1"
  by (induction ps arbitrary: i) auto

lemma start_index_from_hit:
  "c \<in> issn ` set ps \<Longrightarrow>
     start_index_from i c ps = int (i + length (takeWhile (\<lambda>p. issn p \<noteq> c) ps))"
  by (induction ps arbitrary: i) auto

lemma resume_hit:
  assumes "c \<noteq> []" "c \<in> issn ` set pubs"
  shows "resume_publications (Some c) pubs = dropWhile (\<lambda>p. issn p \<noteq> c) pubs"
proof -
  have "start_index_from 0 c pubs = int (length (takeWhile (\<lambda>p. issn p \<noteq> c) pubs))"
    using start_index_from_hit[OF assms(2), of 0] by simp
  then show ?thesis using assms(1)
    by (simp add: resume_publications_def Let_def dropWhile_eq_drop)
qed

lemma resume_miss:
  assumes "c \<notin> issn ` set pubs"
  shows "resume_publications (Some c) pubs = pubs"
  using start_index_from_miss[OF assms, of 0] by (simp add: resume_publications_def)

text \<open>
  Claim C2. With a checkpoint loaded from the store, if some publication of the list has
  that ISSN, the list is cut to start at the first such publication, which stays in the
  list, and the publications before it, none of which has that ISSN, are dropped; if no
  publication has that ISSN, the list is left whole.
\<close>

theorem resume_at_checkpoint:
  assumes "snd (fst (get_existing_issue_uuids f)) = Some c"
  shows "(c \<in> issn ` set pubs \<longrightarrow>
            resume_publications (Some c) pubs = dropWhile (\<lambda>p. issn p \<noteq> c) pubs
            \<and> pubs = takeWhile (\<lambda>p. issn p \<noteq> c) pubs @ resume_publications (Some c) pubs
            \<and> resume_publications (Some c) pubs \<noteq> []
            \<and> issn (hd (resume_publications (Some c) pubs)) = c
            \<and> c \<notin> issn ` set (takeWhile (\<lambda>p. issn p \<noteq> c) pubs))
       \<and> (c \<notin> issn ` set pubs \<longrightarrow> resume_publications (Some c) pubs = pubs)"
proof -
  have ne: "c \<noteq> []" using assms by (rule checkpoint_nonempty)
  have hit: "c \<in> issn ` set pubs \<Longrightarrow>
            resume_publications (Some c) pubs = dropWhile (\<lambda>p. issn p \<noteq> c) pubs
            \<and> pubs = takeWhile (\<lambda>p. issn p \<noteq> c) pubs @ resume_publications (Some c) pubs
            \<and> resume_publications (Some c) pubs \<noteq> []
            \<and> issn (hd (resume_publications (Some c) pubs)) = c
            \<and> c \<notin> issn ` set (takeWhile (\<lambda>p. issn p \<noteq> c) pubs)"
  proof -
    assume h: "c \<in> issn ` set pubs"
    have r: "resume_publications (Some c) pubs = dropWhile (\<lambda>p. issn p \<noteq> c) pubs"
      using resume_hit[OF ne h] .
    have d: "dropWhile (\<lambda>p. issn p \<noteq> c) pubs \<noteq> []" using h by (auto simp: dropWhile_eq_Nil_conv)
    have "\<not> (issn (hd (dropWhile (\<lambda>p. issn p \<noteq> c) pubs)) \<noteq> c)" using d by (rule hd_dropWhile)
    moreover have "c \<notin> issn ` set (takeWhile (\<lambda>p. issn p \<noteq> c) pubs)"
      using set_takeWhileD[of _ "\<lambda>p. issn p \<noteq> c" pubs] by auto
    ultimately show ?thesis using r d by simp
  qed
  show ?thesis using hit resume_miss by blast
qed

theorem resume_at_checkpoint_witness:
  "snd (fst (get_existing_issue_uuids (Present [example_row ''B'' ''aaa''] False))) = Some ''B''
   \<and> resume_publications (Some ''B'')
        [example_pub ''A'' ''c'', example_pub ''B'' ''c'', example_pub ''C'' ''c'']
       = [example_pub ''B'' ''c'', example_pub ''C'' ''c'']
   \<and> resume_publications (Some ''B'') [example_pub ''A'' ''c'', example_pub ''C'' ''c'']
       = [example_pub ''A'' ''c'', example_pub ''C'' ''c'']"
proof -
  have h: "snd (fst (get_existing_issue_uuids (Present [example_row ''B'' ''aaa''] False)))
      = Some ''B''"
    by (simp add: get_existing_issue_uuids_def cell_def example_row_def)
  show ?thesis
    using h
      resume_at_checkpoint[OF h,
        of "[example_pub ''A'' ''c'', example_pub ''B'' ''c'', example_pub ''C'' ''c'']"]
      resume_at_checkpoint[OF h, of "[example_pub ''A'' ''c'', example_pub ''C'' ''c'']"]
    by (simp add: example_pub_def)
qed

section \<open>Properties of the download manager\<close>

lemma primary_attempt_no_click: "Click \<notin> set (snd (primary_attempt w))"
  by (simp add: primary_attempt_def split: http_outcome.splits)

lemma fallback_attempt_click: "Click \<in> set (snd (fallback_attempt w))"
  by (simp add: fallback_attempt_def split: prod.splits outcome.splits bool.splits)

lemma primary_raises_iff:
  "primary_raises w = (http w = RequestRaises \<or> http w = Response 200 True)"
  by (cases "http w") (auto simp: primary_raises_def primary_attempt_def)

lemma download_body_events:
  "snd (download_body w) =
     (if primary_raises w then snd (primary_attempt w) @ snd (fallback_attempt w)
      else snd (primary_attempt w))"
  by (cases "primary_attempt w"; cases "fallback_attempt w")
     (auto simp: download_body_def primary_raises_def split: outcome.splits option.splits)

lemma download_pdf_events: "snd (download_pdf w) = snd (download_body w)"
  by (cases "download_body w") (auto simp: download_pdf_def split: outcome.splits)

lemma download_pdf_click: "(Click \<in> set (snd (download_pdf w))) = primary_raises w"
  using primary_attempt_no_click[of w] fallback_attempt_click[of w]
  by (simp add: download_pdf_events download_body_events)

lemma primary_attempt_cases:
  "fst (primary_attempt w) = Raised \<or> fst (primary_attempt w) = Returned None
   \<or> fst (primary_attempt w) = Returned (Some True)"
  by (simp add: primary_attempt_def split: http_outcome.splits)

lemma primary_attempt_true:
  "(fst (primary_attempt w) = Returned (Some True)) = (http w = Response 200 False)"
  by (cases "http w") (auto simp: primary_attempt_def)

lemma fallback_attempt_cases:
  "fst (fallback_attempt w) = Raised \<or> fst (fallback_attempt w) = Returned None
   \<or> fst (fallback_attempt w) = Returned (Some True)"
  by (simp add: fallback_attempt_def split: prod.splits outcome.splits bool.splits)

lemma download_body_result:
  "fst (download_body w) =
     Returned (http w = Response 200 False \<or> (primary_raises w \<and> fallback_succeeds w))"
proof -
  consider (r) "fst (primary_attempt w) = Raised"
    | (n) "fst (primary_attempt w) = Returned None"
    | (t) "fst (primary_attempt w) = Returned (Some True)"
    using primary_attempt_cases by blast
  then show ?thesis
  proof cases
    case r
    then have nt: "http w \<noteq> Response 200 False"
      using primary_attempt_true[of w] by auto
    from r have pr: "primary_raises w" by (simp add: primary_raises_def)
    from r obtain ev where p: "primary_attempt w = (Raised, ev)"
      by (cases "primary_attempt w") auto
    consider (fr) "fst (fallback_attempt w) = Raised"
      | (fn) "fst (fallback_attempt w) = Returned None"
      | (ft) "fst (fallback_attempt w) = Returned (Some True)"
      using fallback_attempt_cases by blast
    then show ?thesis
    proof cases
      case fr
      then obtain ev2 where "fallback_attempt w = (Raised, ev2)"
        by (cases "fallback_attempt w") auto
      with p nt pr fr show ?thesis by (simp add: download_body_def fallback_succeeds_def)
    next
      case fn
      then obtain ev2 where "fallback_attempt w = (Returned None, ev2)"
        by (cases "fallback_attempt w") auto
      with p nt pr fn show ?thesis by (simp add: download_body_def fallback_succeeds_def)
    next
      case ft
      then obtain ev2 where "fallback_attempt w = (Returned (Some True), ev2)"
        by (cases "fallback_attempt w") auto
      with p nt pr ft show ?thesis by (simp add: download_body_def fallback_succeeds_def)
    qed
  next
    case n
    then have nt: "http w \<noteq> Response 200 False"
      using primary_attempt_true[of w] by auto
    from n have pr: "\<not> primary_raises w" by (simp add: primary_raises_def)
    from n obtain ev where "primary_attempt w = (Returned None, ev)"
      by (cases "primary_attempt w") auto
    with nt pr show ?thesis by (simp add: download_body_def)
  next
    case t
    then have nt: "http w = Response 200 False"
      using primary_attempt_true[of w] by auto
    from t obtain ev where "primary_attempt w = (Returned (Some True), ev)"
      by (cases "primary_attempt w") auto
    with nt show ?thesis by (simp add: download_body_def)
  qed
qed

lemma download_pdf_result:
  "fst (download_pdf w) =
     Returned (http w = Response 200 False \<or> (primary_raises w \<and> fallback_succeeds w))"
proof -
  obtain b ev where "download_body w = (Returned b, ev)"
    and "b = (http w = Response 200 False \<or> (primary_raises w \<and> fallback_succeeds w))"
    using download_body_result[of w] by (cases "download_body w") auto
  then show ?thesis by (simp add: download_pdf_def)
qed

lemma download_pdf_not_ok:
  assumes "http w = Response n b" "n \<noteq> 200"
  shows "download_pdf w = (Returned False, [HttpGet])"
  using assms by (simp add: download_pdf_def download_body_def primary_attempt_def)

text \<open>
  Claim C4. \<open>download_pdf\<close> never raises. The fallback (the click on the link) runs
  exactly when the primary retrieval raises, that is when the request raises or writing the
  body of an OK response raises; a response with a status other than 200 returns
  \<open>False\<close> after the request alone. The result is \<open>True\<close> exactly when the primary
  retrieval succeeds or it raises and the fallback succeeds, and \<open>False\<close> otherwise.
\<close>

theorem download_pdf_fallback_and_failure:
  "fst (download_pdf w) \<noteq> Raised
   \<and> (Click \<in> set (snd (download_pdf w))) = primary_raises w
   \<and> primary_raises w = (http w = RequestRaises \<or> http w = Response 200 True)
   \<and> (\<forall>n b. http w = Response n b \<and> n \<noteq> 200 \<longrightarrow> download_pdf w = (Returned False, [HttpGet]))
   \<and> fst (download_pdf w) =
       Returned (http w = Response 200 False \<or> (primary_raises w \<and> fallback_succeeds w))"
  using download_pdf_result[of w] download_pdf_click[of w] primary_raises_iff[of w]
    download_pdf_not_ok[of w]
  by simp

theorem download_pdf_fallback_and_failure_witness:
  "http \<lparr>http = Response 404 False, click_raises = False, polls = [NewFile], move_raises = False\<rparr>
     = Response 404 False
   \<and> (404::nat) \<noteq> 200
   \<and> download_pdf \<lparr>http = Response 404 False, click_raises = False, polls = [NewFile],
        move_raises = False\<rparr> = (Returned False, [HttpGet])"
proof -
  have h: "http \<lparr>http = Response 404 False, click_raises = False, polls = [NewFile],
      move_raises = False\<rparr> = Response 404 False \<and> (404::nat) \<noteq> 200"
    by simp
  show ?thesis
    using h download_pdf_fallback_and_failure[of
      "\<lparr>http = Response 404 False, click_raises = False, polls = [NewFile], move_raises = False\<rparr>"]
    by blast
qed

section \<open>Properties of the crawl orchestrator\<close>

lemma collect_issue_fresh:
  assumes "collect_issue W pub existing n a = (Some (d, w), n')"
  shows "issue_uuid (issue_rec d) \<notin> existing"
  using assms
  by (auto simp: collect_issue_def Let_def split: name_elem.splits prod.splits if_splits)

lemma collect_page_fresh:
  "(d, w) \<in> set (fst (collect_page W pub existing n as)) \<Longrightarrow>
     issue_uuid (issue_rec d) \<notin> existing"
proof (induction as arbitrary: n)
  case Nil
  then show ?case by simp
next
  case (Cons a as)
  obtain r n1 where c: "collect_issue W pub existing n a = (r, n1)"
    by (cases "collect_issue W pub existing n a") auto
  obtain rs n2 where p: "collect_page W pub existing n1 as = (rs, n2)"
    by (cases "collect_page W pub existing n1 as") auto
  from Cons.prems c p have "(r = Some (d, w)) \<or> (d, w) \<in> set rs"
    by (auto split: option.splits)
  then show ?case
  proof
    assume "r = Some (d, w)"
    with c show ?thesis using collect_issue_fresh by blast
  next
    assume "(d, w) \<in> set rs"
    with p Cons.IH[of n1] show ?thesis by simp
  qed
qed

lemma process_issue_download_shape:
  "\<exists>ok. fst (process_issue_download d w) = Returned (ok, issue_rec d)"
proof (cases "truthy (download_link d) \<and> pdf_path d \<noteq> None")
  case True
  obtain b ev where "download_pdf w = (Returned b, ev)"
    using download_pdf_result[of w] by (cases "download_pdf w") auto
  with True show ?thesis by (simp add: process_issue_download_def)
next
  case False
  then show ?thesis by (auto simp: process_issue_download_def)
qed

lemma process_issue_download_no_link:
  "\<not> truthy (download_link d) \<or> pdf_path d = None \<Longrightarrow>
     process_issue_download d w = (Returned (True, issue_rec d), [])"
  by (auto simp: process_issue_download_def)

lemma record_results_spec:
  "existing_issue_uuids (record_results st rs) =
     existing_issue_uuids st \<union> issue_uuid ` set (new_success rs)
   \<and> issues_csv (record_results st rs) = issues_csv st @ new_success rs
   \<and> failures_csv (record_results st rs) = failures_csv st @ new_failure rs
   \<and> dispatched (record_results st rs) = dispatched st @ new_dispatched rs
   \<and> uuid_count (record_results st rs) = uuid_count st"
proof (induction rs arbitrary: st)
  case Nil
  show ?case by (simp add: new_success_def new_failure_def new_dispatched_def)
next
  case (Cons x rs)
  obtain d res ev where x: "x = (d, res, ev)" by (cases x) auto
  show ?case
  proof (cases res)
    case Raised
    with x show ?thesis
      by (simp add: Cons.IH new_success_def new_failure_def new_dispatched_def Let_def)
  next
    case (Returned br)
    obtain b r where br: "br = (b, r)" by (cases br) auto
    show ?thesis
    proof (cases b)
      case True
      with x Returned br show ?thesis
        by (simp add: Cons.IH new_success_def new_failure_def new_dispatched_def Let_def)
    next
      case False
      with x Returned br show ?thesis
        by (simp add: Cons.IH new_success_def new_failure_def new_dispatched_def Let_def)
    qed
  qed
qed


lemma set_new_success:
  "set (new_success rs) = {r. \<exists>d ev. (d, Returned (True, r), ev) \<in> set rs}"
  by (auto simp: new_success_def split: outcome.splits prod.splits bool.splits) force

lemma set_new_failure:
  "set (new_failure rs) = {r. \<exists>d ev. (d, Returned (False, r), ev) \<in> set rs}"
  by (auto simp: new_failure_def split: outcome.splits prod.splits bool.splits) force

lemma set_new_dispatched:
  "set (new_dispatched rs) =
     {u. \<exists>d res ev. (d, res, ev) \<in> set rs \<and> ev \<noteq> [] \<and> u = issue_uuid (issue_rec d)}"
  by (auto simp: new_dispatched_def split: if_splits)

lemma completed_entry:
  assumes "(d, res, ev) \<in> set (map (\<lambda>(d, w). (d, process_issue_download d w)) pis)"
  shows "\<exists>w. (d, w) \<in> set pis \<and> process_issue_download d w = (res, ev)"
  using assms by auto

lemma completed_rows:
  assumes "(d, Returned (b, r), ev) \<in> set (map (\<lambda>(d, w). (d, process_issue_download d w)) pis)"
  shows "r = issue_rec d \<and> (\<exists>w. (d, w) \<in> set pis)"
proof -
  from completed_entry[OF assms] obtain w where
    w: "(d, w) \<in> set pis" "process_issue_download d w = (Returned (b, r), ev)" by blast
  from process_issue_download_shape[of d w] w(2) have "r = issue_rec d" by auto
  with w(1) show ?thesis by blast
qed


lemma run_page_unfold:
  assumes perm: "\<forall>xs. mset (as_completed W xs) = mset xs"
    and c: "collect_page W pub (existing_issue_uuids st) (uuid_count st) articles = (pis, n)"
  shows "run_page W st pub articles =
    record_results (st\<lparr>uuid_count := n\<rparr>)
      (as_completed W (map (\<lambda>(d, w). (d, process_issue_download d w)) pis))"
proof (cases "pis = []")
  case True
  have "mset (as_completed W []) = {#}" using perm by simp
  then have "as_completed W [] = []" by simp
  with True show ?thesis by (simp add: run_page_def c)
next
  case False
  then show ?thesis by (simp add: run_page_def c)
qed

lemma run_page_effect:
  assumes perm: "\<forall>xs. mset (as_completed W xs) = mset xs"
  shows "\<exists>rs. existing_issue_uuids (run_page W st pub articles) =
              existing_issue_uuids st \<union> issue_uuid ` set (new_success rs)
         \<and> issues_csv (run_page W st pub articles) = issues_csv st @ new_success rs
         \<and> failures_csv (run_page W st pub articles) = failures_csv st @ new_failure rs
         \<and> dispatched (run_page W st pub articles) = dispatched st @ new_dispatched rs
         \<and> issue_uuid ` set (new_success rs) \<inter> existing_issue_uuids st = {}
         \<and> issue_uuid ` set (new_failure rs) \<inter> existing_issue_uuids st = {}
         \<and> set (new_dispatched rs) \<inter> existing_issue_uuids st = {}"
proof -
  obtain pis n where c:
    "collect_page W pub (existing_issue_uuids st) (uuid_count st) articles = (pis, n)"
    by (cases "collect_page W pub (existing_issue_uuids st) (uuid_count st) articles") auto
  define xs where "xs = map (\<lambda>(d, w). (d, process_issue_download d w)) pis"
  define rs where "rs = as_completed W xs"
  have rp: "run_page W st pub articles = record_results (st\<lparr>uuid_count := n\<rparr>) rs"
    unfolding rs_def xs_def by (rule run_page_unfold[OF perm c])
  have srs: "set rs = set xs"
    using perm unfolding rs_def by (metis mset_eq_setD)
  have fresh: "\<And>d w. (d, w) \<in> set pis \<Longrightarrow> issue_uuid (issue_rec d) \<notin> existing_issue_uuids st"
    using collect_page_fresh[of _ _ W pub "existing_issue_uuids st" "uuid_count st" articles] c
    by simp
  have row: "\<And>d b r ev. (d, Returned (b, r), ev) \<in> set rs \<Longrightarrow>
      issue_uuid r \<notin> existing_issue_uuids st"
  proof -
    fix d b r ev assume "(d, Returned (b, r), ev) \<in> set rs"
    then have "(d, Returned (b, r), ev) \<in> set (map (\<lambda>(d, w). (d, process_issue_download d w)) pis)"
      using srs xs_def by simp
    from completed_rows[OF this] fresh show "issue_uuid r \<notin> existing_issue_uuids st" by blast
  qed
  have disp: "\<And>d res ev. (d, res, ev) \<in> set rs \<Longrightarrow>
      issue_uuid (issue_rec d) \<notin> existing_issue_uuids st"
  proof -
    fix d res ev assume "(d, res, ev) \<in> set rs"
    then have "(d, res, ev) \<in> set (map (\<lambda>(d, w). (d, process_issue_download d w)) pis)"
      using srs xs_def by simp
    from completed_entry[OF this] fresh show "issue_uuid (issue_rec d) \<notin> existing_issue_uuids st"
      by blast
  qed
  have a: "issue_uuid ` set (new_success rs) \<inter> existing_issue_uuids st = {}"
    using row by (auto simp: set_new_success)
  have b: "issue_uuid ` set (new_failure rs) \<inter> existing_issue_uuids st = {}"
    using row by (auto simp: set_new_failure)
  have d: "set (new_dispatched rs) \<inter> existing_issue_uuids st = {}"
    using disp by (auto simp: set_new_dispatched)
  have "existing_issue_uuids (run_page W st pub articles) =
              existing_issue_uuids st \<union> issue_uuid ` set (new_success rs)
         \<and> issues_csv (run_page W st pub articles) = issues_csv st @ new_success rs
         \<and> failures_csv (run_page W st pub articles) = failures_csv st @ new_failure rs
         \<and> dispatched (run_page W st pub articles) = dispatched st @ new_dispatched rs"
    using record_results_spec[of "st\<lparr>uuid_count := n\<rparr>" rs] by (simp add: rp)
  with a b d show ?thesis by blast
qed

lemma run_page_mono:
  assumes perm: "\<forall>xs. mset (as_completed W xs) = mset xs"
  shows "existing_issue_uuids st \<subseteq> existing_issue_uuids (run_page W st pub articles)
    \<and> (\<exists>ys. dispatched (run_page W st pub articles) = dispatched st @ ys
          \<and> set ys \<inter> existing_issue_uuids st = {})"
  using run_page_effect[OF perm, of st pub articles] by blast

lemma run_pages_mono:
  assumes perm: "\<forall>xs. mset (as_completed W xs) = mset xs"
  shows "existing_issue_uuids st \<subseteq> existing_issue_uuids (run_pages W st pub pages)
    \<and> (\<exists>ys. dispatched (run_pages W st pub pages) = dispatched st @ ys
          \<and> set ys \<inter> existing_issue_uuids st = {})"
proof (induction pages arbitrary: st)
  case Nil
  show ?case by simp
next
  case (Cons articles rest)
  show ?case
  proof (cases "articles = []")
    case True
    then show ?thesis by simp
  next
    case False
    define st1 where "st1 = run_page W st pub articles"
    from run_page_mono[OF perm, of st pub articles] obtain ys1 where
      s1: "existing_issue_uuids st \<subseteq> existing_issue_uuids st1"
      and d1: "dispatched st1 = dispatched st @ ys1" "set ys1 \<inter> existing_issue_uuids st = {}"
      unfolding st1_def by blast
    from Cons.IH[of st1] obtain ys2 where
      s2: "existing_issue_uuids st1 \<subseteq> existing_issue_uuids (run_pages W st1 pub rest)"
      and d2: "dispatched (run_pages W st1 pub rest) = dispatched st1 @ ys2"
        "set ys2 \<inter> existing_issue_uuids st1 = {}"
      by blast
    have r: "run_pages W st pub (articles # rest) = run_pages W st1 pub rest"
      using False by (simp add: st1_def)
    have "dispatched (run_pages W st1 pub rest) = dispatched st @ (ys1 @ ys2)"
      using d1 d2 by simp
    moreover have "set (ys1 @ ys2) \<inter> existing_issue_uuids st = {}"
      using d1 d2 s1 by auto
    ultimately show ?thesis unfolding r using s1 s2 by blast
  qed
qed

lemma run_publications_mono:
  assumes perm: "\<forall>xs. mset (as_completed W xs) = mset xs"
  shows "existing_issue_uuids st \<subseteq> existing_issue_uuids (run_publications W st pubs)
    \<and> (\<exists>ys. dispatched (run_publications W st pubs) = dispatched st @ ys
          \<and> set ys \<inter> existing_issue_uuids st = {})"
proof (induction pubs arbitrary: st)
  case Nil
  show ?case by simp
next
  case (Cons pub pubs)
  define st1 where "st1 = (case listing W pub of None \<Rightarrow> st | Some pages \<Rightarrow> run_pages W st pub pages)"
  have "existing_issue_uuids st \<subseteq> existing_issue_uuids st1
    \<and> (\<exists>ys. dispatched st1 = dispatched st @ ys \<and> set ys \<inter> existing_issue_uuids st = {})"
    unfolding st1_def using run_pages_mono[OF perm, of st pub] by (cases "listing W pub") auto
  then obtain ys1 where
    s1: "existing_issue_uuids st \<subseteq> existing_issue_uuids st1"
    and d1: "dispatched st1 = dispatched st @ ys1" "set ys1 \<inter> existing_issue_uuids st = {}"
    by blast
  from Cons.IH[of st1] obtain ys2 where
    s2: "existing_issue_uuids st1 \<subseteq> existing_issue_uuids (run_publications W st1 pubs)"
    and d2: "dispatched (run_publications W st1 pubs) = dispatched st1 @ ys2"
      "set ys2 \<inter> existing_issue_uuids st1 = {}"
    by blast
  have r: "run_publications W st (pub # pubs) = run_publications W st1 pubs"
    by (simp add: st1_def)
  have "dispatched (run_publications W st1 pubs) = dispatched st @ (ys1 @ ys2)"
    using d1 d2 by simp
  moreover have "set (ys1 @ ys2) \<inter> existing_issue_uuids st = {}"
    using d1 d2 s1 by auto
  ultimately show ?case unfolding r using s1 s2 by blast
qed


lemma appended_append: "appended xs (xs @ ys) = ys"
  by (simp add: appended_def)

text \<open>
  Claim C1. Whatever order the downloads of a page finish in, no download is started and
  no row is written to the success store or to the failure store for an issue whose
  identifier is in the key set when the page is read; the identifier of every row written
  to the success store is in the key set when the page is done; and in the rest of the run,
  on the later pages of the publication and on the publications after it, no download is
  started for an identifier written to the success store on this page.
\<close>

theorem crawl_dedup:
  assumes perm: "\<forall>xs. mset (as_completed W xs) = mset xs"
  shows "set (appended (dispatched st) (dispatched (run_page W st pub articles)))
           \<inter> existing_issue_uuids st = {}
    \<and> issue_uuid ` set (appended (issues_csv st) (issues_csv (run_page W st pub articles)))
           \<inter> existing_issue_uuids st = {}
    \<and> issue_uuid ` set (appended (failures_csv st) (failures_csv (run_page W st pub articles)))
           \<inter> existing_issue_uuids st = {}
    \<and> issue_uuid ` set (appended (issues_csv st) (issues_csv (run_page W st pub articles)))
           \<subseteq> existing_issue_uuids (run_page W st pub articles)
    \<and> set (appended (dispatched (run_page W st pub articles))
              (dispatched (run_publications W
                 (run_pages W (run_page W st pub articles) pub later) pubs)))
           \<inter> issue_uuid ` set (appended (issues_csv st) (issues_csv (run_page W st pub articles)))
         = {}"
proof -
  define st1 where "st1 = run_page W st pub articles"
  define st2 where "st2 = run_pages W st1 pub later"
  define st3 where "st3 = run_publications W st2 pubs"
  from run_page_effect[OF perm, of st pub articles] obtain rs where
    e: "existing_issue_uuids st1 = existing_issue_uuids st \<union> issue_uuid ` set (new_success rs)"
    and i: "issues_csv st1 = issues_csv st @ new_success rs"
    and f: "failures_csv st1 = failures_csv st @ new_failure rs"
    and d: "dispatched st1 = dispatched st @ new_dispatched rs"
    and fi: "issue_uuid ` set (new_success rs) \<inter> existing_issue_uuids st = {}"
    and ff: "issue_uuid ` set (new_failure rs) \<inter> existing_issue_uuids st = {}"
    and fd: "set (new_dispatched rs) \<inter> existing_issue_uuids st = {}"
    unfolding st1_def by blast
  from run_pages_mono[OF perm, of st1 pub later] obtain ys2 where
    s2: "existing_issue_uuids st1 \<subseteq> existing_issue_uuids st2"
    and d2: "dispatched st2 = dispatched st1 @ ys2" "set ys2 \<inter> existing_issue_uuids st1 = {}"
    unfolding st2_def by blast
  from run_publications_mono[OF perm, of st2 pubs] obtain ys3 where
    d3: "dispatched st3 = dispatched st2 @ ys3" "set ys3 \<inter> existing_issue_uuids st2 = {}"
    unfolding st3_def by blast
  have a1: "appended (dispatched st) (dispatched st1) = new_dispatched rs"
    using d by (simp add: appended_append)
  have a2: "appended (issues_csv st) (issues_csv st1) = new_success rs"
    using i by (simp add: appended_append)
  have a3: "appended (failures_csv st) (failures_csv st1) = new_failure rs"
    using f by (simp add: appended_append)
  have "dispatched st3 = dispatched st1 @ (ys2 @ ys3)" using d2 d3 by simp
  then have a4: "appended (dispatched st1) (dispatched st3) = ys2 @ ys3"
    by (simp add: appended_append)
  have later: "set (ys2 @ ys3) \<inter> existing_issue_uuids st1 = {}"
    using d2 d3 s2 by auto
  have sub: "issue_uuid ` set (new_success rs) \<subseteq> existing_issue_uuids st1"
    using e by auto
  have c5: "set (ys2 @ ys3) \<inter> issue_uuid ` set (new_success rs) = {}"
    using later sub by blast
  show ?thesis
    unfolding st1_def[symmetric] st2_def[symmetric] st3_def[symmetric] a1 a2 a3 a4
    using fd fi ff sub c5 by blast
qed

theorem crawl_dedup_witness:
  "(\<forall>xs. mset (as_completed example_world xs) = mset xs)
   \<and> dispatched (run_page example_world (example_state {''abc''})
        (example_pub ''0213-1234'' ''Guerra civil'')
        [example_article (Some ''/hd/es/pdf?id=abc''),
         example_article (Some ''/hd/es/pdf?id=def'')]) = [''def'']
   \<and> dispatched (run_publications example_world
        (run_pages example_world
          (run_page example_world (example_state {''abc''})
            (example_pub ''0213-1234'' ''Guerra civil'')
            [example_article (Some ''/hd/es/pdf?id=abc''),
             example_article (Some ''/hd/es/pdf?id=def'')])
          (example_pub ''0213-1234'' ''Guerra civil'')
          [[example_article (Some ''/hd/es/pdf?id=def''),
            example_article (Some ''/hd/es/pdf?id=ghi'')]])
        []) = [''def'', ''ghi'']
   \<and> set (appended
        (dispatched (run_page example_world (example_state {''abc''})
            (example_pub ''0213-1234'' ''Guerra civil'')
            [example_article (Some ''/hd/es/pdf?id=abc''),
             example_article (Some ''/hd/es/pdf?id=def'')]))
        (dispatched (run_publications example_world
          (run_pages example_world
            (run_page example_world (example_state {''abc''})
              (example_pub ''0213-1234'' ''Guerra civil'')
              [example_article (Some ''/hd/es/pdf?id=abc''),
               example_article (Some ''/hd/es/pdf?id=def'')])
            (example_pub ''0213-1234'' ''Guerra civil'')
            [[example_article (Some ''/hd/es/pdf?id=def''),
              example_article (Some ''/hd/es/pdf?id=ghi'')]])
          [])))
      \<inter> issue_uuid ` set (appended (issues_csv (example_state {''abc''}))
          (issues_csv (run_page example_world (example_state {''abc''})
            (example_pub ''0213-1234'' ''Guerra civil'')
            [example_article (Some ''/hd/es/pdf?id=abc''),
             example_article (Some ''/hd/es/pdf?id=def'')]))) = {}"
proof -
  have h: "\<forall>xs. mset (as_completed example_world xs) = mset xs"
    by (simp add: example_world_def)
  have c1: "dispatched (run_page example_world (example_state {''abc''})
        (example_pub ''0213-1234'' ''Guerra civil'')
        [example_article (Some ''/hd/es/pdf?id=abc''),
         example_article (Some ''/hd/es/pdf?id=def'')]) = [''def'']"
    by code_simp
  have c2: "dispatched (run_publications example_world
        (run_pages example_world
          (run_page example_world (example_state {''abc''})
            (example_pub ''0213-1234'' ''Guerra civil'')
            [example_article (Some ''/hd/es/pdf?id=abc''),
             example_article (Some ''/hd/es/pdf?id=def'')])
          (example_pub ''0213-1234'' ''Guerra civil'')
          [[example_article (Some ''/hd/es/pdf?id=def''),
            example_article (Some ''/hd/es/pdf?id=ghi'')]])
        []) = [''def'', ''ghi'']"
    by code_simp
  note t = crawl_dedup[OF h, of "example_state {''abc''}"
      "example_pub ''0213-1234'' ''Guerra civil''"
      "[example_article (Some ''/hd/es/pdf?id=abc''),
        example_article (Some ''/hd/es/pdf?id=def'')]"
      "[[example_article (Some ''/hd/es/pdf?id=def''),
         example_article (Some ''/hd/es/pdf?id=ghi'')]]" "[]"]
  show ?thesis using h c1 c2 t by blast
qed

lemma collect_issue_no_link:
  assumes "art_name a = NameElem parts" "\<not> truthy (article_link a)" "\<not> art_mkdir_raises a"
    "uuid4 W n \<notin> existing"
  shows "collect_issue W pub existing n a =
    (Some (\<lparr>download_link = article_link a, pdf_path = None,
            issue_rec = \<lparr>publication_issn = issn pub, issue_uuid = uuid4 W n,
              issue_name = fst (parse_issue_name_parts parts),
              date = fst (snd (parse_issue_name_parts parts)),
              number = fst (snd (snd (parse_issue_name_parts parts))),
              number_of_pages = snd (snd (snd (parse_issue_name_parts parts))),
              issue_link = []\<rparr>\<rparr>, art_download a), Suc n)"
  using assms by (simp add: collect_issue_def Let_def split: prod.splits)

lemma collect_page_no_link:
  assumes "a \<in> set as" "art_name a = NameElem parts" "\<not> truthy (article_link a)"
    "\<not> art_mkdir_raises a" "\<forall>m. uuid4 W m \<notin> existing"
  shows "\<exists>m. (\<lparr>download_link = article_link a, pdf_path = None,
            issue_rec = \<lparr>publication_issn = issn pub, issue_uuid = uuid4 W m,
              issue_name = fst (parse_issue_name_parts parts),
              date = fst (snd (parse_issue_name_parts parts)),
              number = fst (snd (snd (parse_issue_name_parts parts))),
              number_of_pages = snd (snd (snd (parse_issue_name_parts parts))),
              issue_link = []\<rparr>\<rparr>, art_download a)
      \<in> set (fst (collect_page W pub existing n as))"
  using assms(1)
proof (induction as arbitrary: n)
  case Nil
  then show ?case by simp
next
  case (Cons b bs)
  obtain r n1 where c: "collect_issue W pub existing n b = (r, n1)"
    by (cases "collect_issue W pub existing n b") auto
  obtain rs n2 where p: "collect_page W pub existing n1 bs = (rs, n2)"
    by (cases "collect_page W pub existing n1 bs") auto
  show ?case
  proof (cases "a = b")
    case True
    from assms(5) have "uuid4 W n \<notin> existing" by simp
    from collect_issue_no_link[OF assms(2) assms(3) assms(4) this, of pub] c True
    show ?thesis using p by auto
  next
    case False
    with Cons.prems have "a \<in> set bs" by simp
    from Cons.IH[OF this, of n1] p c show ?thesis by (auto split: option.splits)
  qed
qed

lemma run_page_success_rows:
  assumes perm: "\<forall>xs. mset (as_completed W xs) = mset xs"
    and "(d, w) \<in> set (fst (collect_page W pub (existing_issue_uuids st) (uuid_count st) articles))"
    and "process_issue_download d w = (Returned (True, r), ev)"
  shows "r \<in> set (appended (issues_csv st) (issues_csv (run_page W st pub articles)))"
proof -
  obtain pis n where c:
    "collect_page W pub (existing_issue_uuids st) (uuid_count st) articles = (pis, n)"
    by (cases "collect_page W pub (existing_issue_uuids st) (uuid_count st) articles") auto
  define xs where "xs = map (\<lambda>(d, w). (d, process_issue_download d w)) pis"
  define rs where "rs = as_completed W xs"
  have rp: "run_page W st pub articles = record_results (st\<lparr>uuid_count := n\<rparr>) rs"
    unfolding rs_def xs_def by (rule run_page_unfold[OF perm c])
  have srs: "set rs = set xs"
    using perm unfolding rs_def by (metis mset_eq_setD)
  from assms(2) c have "(d, w) \<in> set pis" by simp
  then have "(d, process_issue_download d w) \<in> set xs" unfolding xs_def by force
  with assms(3) srs have "(d, Returned (True, r), ev) \<in> set rs" by simp
  then have "r \<in> set (new_success rs)" unfolding set_new_success by blast
  moreover have "issues_csv (run_page W st pub articles) = issues_csv st @ new_success rs"
    using record_results_spec[of "st\<lparr>uuid_count := n\<rparr>" rs] by (simp add: rp)
  ultimately show ?thesis by (simp add: appended_append)
qed

text \<open>
  Claim C10. For an entry without download link and without PDF path,
  \<open>process_issue_download\<close> returns success and starts no download. An article of the
  page that has its name element and no download link, and whose directory can be created,
  is written to the success store with one of the random identifiers as its
  \<open>issue_uuid\<close> and an empty \<open>issue_link\<close>, the random identifiers being new to
  the key set.
\<close>

theorem no_link_item_recorded:
  assumes perm: "\<forall>xs. mset (as_completed W xs) = mset xs"
    and art: "a \<in> set articles" "art_name a = NameElem parts" "\<not> truthy (article_link a)"
      "\<not> art_mkdir_raises a"
    and fresh: "\<forall>m. uuid4 W m \<notin> existing_issue_uuids st"
  shows "process_issue_download
           \<lparr>download_link = article_link a, pdf_path = None, issue_rec = r\<rparr> (art_download a)
         = (Returned (True, r), [])
    \<and> (\<exists>m. \<lparr>publication_issn = issn pub, issue_uuid = uuid4 W m,
              issue_name = fst (parse_issue_name_parts parts),
              date = fst (snd (parse_issue_name_parts parts)),
              number = fst (snd (snd (parse_issue_name_parts parts))),
              number_of_pages = snd (snd (snd (parse_issue_name_parts parts))),
              issue_link = []\<rparr>
          \<in> set (appended (issues_csv st) (issues_csv (run_page W st pub articles))))"
proof -
  have p1: "process_issue_download
           \<lparr>download_link = article_link a, pdf_path = None, issue_rec = r\<rparr> (art_download a)
         = (Returned (True, r), [])"
    using process_issue_download_no_link[of
        "\<lparr>download_link = article_link a, pdf_path = None, issue_rec = r\<rparr>" "art_download a"]
    by simp
  from collect_page_no_link[OF art fresh, of pub "uuid_count st"] obtain m where
    m: "(\<lparr>download_link = article_link a, pdf_path = None,
            issue_rec = \<lparr>publication_issn = issn pub, issue_uuid = uuid4 W m,
              issue_name = fst (parse_issue_name_parts parts),
              date = fst (snd (parse_issue_name_parts parts)),
              number = fst (snd (snd (parse_issue_name_parts parts))),
              number_of_pages = snd (snd (snd (parse_issue_name_parts parts))),
              issue_link = []\<rparr>\<rparr>, art_download a)
      \<in> set (fst (collect_page W pub (existing_issue_uuids st) (uuid_count st) articles))"
    by blast
  have "\<lparr>publication_issn = issn pub, issue_uuid = uuid4 W m,
              issue_name = fst (parse_issue_name_parts parts),
              date = fst (snd (parse_issue_name_parts parts)),
              number = fst (snd (snd (parse_issue_name_parts parts))),
              number_of_pages = snd (snd (snd (parse_issue_name_parts parts))),
              issue_link = []\<rparr>
          \<in> set (appended (issues_csv st) (issues_csv (run_page W st pub articles)))"
    by (rule run_page_success_rows[OF perm m])
       (simp add: process_issue_download_no_link)
  with p1 show ?thesis by blast
qed

theorem no_link_item_recorded_witness:
  "(\<forall>xs. mset (as_completed example_world xs) = mset xs)
   \<and> example_article None
       \<in> set [example_article (Some ''/hd/es/pdf?id=abc''), example_article None]
   \<and> art_name (example_article None)
       = NameElem (Some [NamePart True ''La Gaceta'', NamePart False ''1/3/1850''])
   \<and> \<not> truthy (article_link (example_article None))
   \<and> \<not> art_mkdir_raises (example_article None)
   \<and> (\<forall>m. uuid4 example_world m \<notin> existing_issue_uuids (example_state {''abc''}))
   \<and> issues_csv (run_page example_world (example_state {''abc''})
        (example_pub ''0213-1234'' ''Guerra civil'')
        [example_article (Some ''/hd/es/pdf?id=abc''), example_article None])
      = [\<lparr>publication_issn = ''0213-1234'', issue_uuid = ''random-'',
          issue_name = ''La Gaceta'', date = ''1/3/1850'', number = [],
          number_of_pages = [], issue_link = []\<rparr>]
   \<and> (\<exists>m. \<lparr>publication_issn = issn (example_pub ''0213-1234'' ''Guerra civil''),
          issue_uuid = uuid4 example_world m,
          issue_name = fst (parse_issue_name_parts
            (Some [NamePart True ''La Gaceta'', NamePart False ''1/3/1850''])),
          date = fst (snd (parse_issue_name_parts
            (Some [NamePart True ''La Gaceta'', NamePart False ''1/3/1850'']))),
          number = fst (snd (snd (parse_issue_name_parts
            (Some [NamePart True ''La Gaceta'', NamePart False ''1/3/1850''])))),
          number_of_pages = snd (snd (snd (parse_issue_name_parts
            (Some [NamePart True ''La Gaceta'', NamePart False ''1/3/1850''])))),
          issue_link = []\<rparr>
        \<in> set (appended (issues_csv (example_state {''abc''}))
            (issues_csv (run_page example_world (example_state {''abc''})
              (example_pub ''0213-1234'' ''Guerra civil'')
              [example_article (Some ''/hd/es/pdf?id=abc''), example_article None]))))"
proof -
  have h: "\<forall>xs. mset (as_completed example_world xs) = mset xs"
    by (simp add: example_world_def)
  have a1: "example_article None
       \<in> set [example_article (Some ''/hd/es/pdf?id=abc''), example_article None]"
    by simp
  have a2: "art_name (example_article None)
       = NameElem (Some [NamePart True ''La Gaceta'', NamePart False ''1/3/1850''])"
    by (simp add: example_article_def)
  have a3: "\<not> truthy (article_link (example_article None))"
    by (simp add: example_article_def article_link_def truthy_def)
  have a4: "\<not> art_mkdir_raises (example_article None)"
    by (simp add: example_article_def)
  have a5: "\<forall>m. uuid4 example_world m \<notin> existing_issue_uuids (example_state {''abc''})"
    by (simp add: example_world_def example_state_def)
  have c: "issues_csv (run_page example_world (example_state {''abc''})
        (example_pub ''0213-1234'' ''Guerra civil'')
        [example_article (Some ''/hd/es/pdf?id=abc''), example_article None])
      = [\<lparr>publication_issn = ''0213-1234'', issue_uuid = ''random-'',
          issue_name = ''La Gaceta'', date = ''1/3/1850'', number = [],
          number_of_pages = [], issue_link = []\<rparr>]"
    by code_simp
  note t = no_link_item_recorded[OF h a1 a2 a3 a4 a5,
      where pub = "example_pub ''0213-1234'' ''Guerra civil''"]
  show ?thesis using h a1 a2 a3 a4 a5 c t by blast
qed

section \<open>Properties of the page splitting\<close>

lemma str_nat_nonempty: "str_nat n \<noteq> []"
  by (subst str_nat.simps) simp

lemma digit_chr_inj:
  assumes "a < 10" "b < 10" "digit_chr a = digit_chr b"
  shows "a = b"
proof -
  have "(48 + a) mod 256 = (48 + b) mod 256"
    using assms(3) by (simp add: digit_chr_def char_of_eq_iff take_bit_eq_mod)
  then show ?thesis using assms(1,2) by simp
qed

lemma str_nat_inj: "str_nat n = str_nat m \<Longrightarrow> n = m"
proof (induction n arbitrary: m rule: str_nat.induct)
  case (1 n)
  show ?case
  proof (cases "n < 10")
    case n: True
    show ?thesis
    proof (cases "m < 10")
      case True
      with n "1.prems" show ?thesis
        using digit_chr_inj[of n m] by (simp add: str_nat.simps[of n] str_nat.simps[of m])
    next
      case False
      then have "str_nat m = str_nat (m div 10) @ [digit_chr (m mod 10)]"
        by (simp add: str_nat.simps[of m])
      moreover have "str_nat n = [digit_chr n]" using n by (simp add: str_nat.simps[of n])
      ultimately have "str_nat (m div 10) = []" using "1.prems" by simp
      then show ?thesis using str_nat_nonempty by blast
    qed
  next
    case n: False
    then have sn: "str_nat n = str_nat (n div 10) @ [digit_chr (n mod 10)]"
      by (simp add: str_nat.simps[of n])
    show ?thesis
    proof (cases "m < 10")
      case True
      then have "str_nat m = [digit_chr m]" by (simp add: str_nat.simps[of m])
      with sn "1.prems" have "str_nat (n div 10) = []" by simp
      then show ?thesis using str_nat_nonempty by blast
    next
      case False
      then have "str_nat m = str_nat (m div 10) @ [digit_chr (m mod 10)]"
        by (simp add: str_nat.simps[of m])
      with sn "1.prems" have eq: "str_nat (n div 10) = str_nat (m div 10)"
        and dg: "digit_chr (n mod 10) = digit_chr (m mod 10)" by simp_all
      from "1.IH"[OF n eq] have "n div 10 = m div 10" .
      moreover from dg have "n mod 10 = m mod 10"
        using digit_chr_inj[of "n mod 10" "m mod 10"] by simp
      ultimately show ?thesis by (metis div_mult_mod_eq)
    qed
  qed
qed

lemma page_name_inj: "page_name stem n = page_name stem m \<Longrightarrow> n = m"
  using str_nat_inj by (simp add: page_name_def)

lemma split_pages_frame:
  "\<exists>new. fst (split_pages wr stem ips files) = files @ new
     \<and> set (map fst new) \<subseteq> (\<lambda>ip. page_name stem (fst ip + 1)) ` set ips
     \<and> set (map fst new) \<inter> set (map fst files) = {}"
proof (induction ips arbitrary: files)
  case Nil
  show ?case by simp
next
  case (Cons ip ips)
  obtain i page where ip: "ip = (i, page)" by (cases ip) auto
  let ?out = "page_name stem (i + 1)"
  show ?case
  proof (cases "?out \<in> set (map fst files)")
    case True
    from Cons.IH[of files] obtain new where
      "fst (split_pages wr stem ips files) = files @ new"
      "set (map fst new) \<subseteq> (\<lambda>ip. page_name stem (fst ip + 1)) ` set ips"
      "set (map fst new) \<inter> set (map fst files) = {}" by blast
    moreover have "split_pages wr stem (ip # ips) files = split_pages wr stem ips files"
      using True ip by (simp add: Let_def)
    ultimately show ?thesis by auto
  next
    case False
    show ?thesis
    proof (cases "wr (i + 1) page")
      case (Written c)
      from Cons.IH[of "files @ [(?out, c)]"] obtain new where
        n: "fst (split_pages wr stem ips (files @ [(?out, c)])) = (files @ [(?out, c)]) @ new"
        "set (map fst new) \<subseteq> (\<lambda>ip. page_name stem (fst ip + 1)) ` set ips"
        "set (map fst new) \<inter> set (map fst (files @ [(?out, c)])) = {}" by blast
      have "fst (split_pages wr stem (ip # ips) files) = files @ ((?out, c) # new)"
        using False Written n(1) ip by (simp add: Let_def)
      moreover have "set (map fst ((?out, c) # new))
          \<subseteq> (\<lambda>ip. page_name stem (fst ip + 1)) ` set (ip # ips)"
        using n(2) ip by auto
      moreover have "set (map fst ((?out, c) # new)) \<inter> set (map fst files) = {}"
        using n(3) False by auto
      ultimately show ?thesis by blast
    next
      case OpenRaises
      with False ip show ?thesis by (simp add: Let_def)
    next
      case (WriteRaises c)
      have "fst (split_pages wr stem (ip # ips) files) = files @ [(?out, c)]"
        using False WriteRaises ip by (simp add: Let_def)
      moreover have "set (map fst [(?out, c)])
          \<subseteq> (\<lambda>ip. page_name stem (fst ip + 1)) ` set (ip # ips)"
        using ip by simp
      moreover have "set (map fst [(?out, c)]) \<inter> set (map fst files) = {}"
        using False by simp
      ultimately show ?thesis by blast
    qed
  qed
qed

lemma split_pages_all_written:
  assumes wr: "\<And>j p. wr j p = Written (render j p)"
  shows "distinct (map fst ips) \<Longrightarrow> split_pages wr stem ips files =
     (files @ map (\<lambda>(i, p). (page_name stem (i + 1), render (i + 1) p))
        (filter (\<lambda>(i, p). page_name stem (i + 1) \<notin> set (map fst files)) ips), False)"
proof (induction ips arbitrary: files)
  case Nil
  show ?case by simp
next
  case (Cons ip ips)
  obtain i page where ip: "ip = (i, page)" by (cases ip) auto
  let ?out = "page_name stem (i + 1)"
  from Cons.prems have d: "distinct (map fst ips)" and ni: "i \<notin> fst ` set ips"
    using ip by auto
  show ?case
  proof (cases "?out \<in> set (map fst files)")
    case True
    have "split_pages wr stem (ip # ips) files = split_pages wr stem ips files"
      using True ip by (simp add: Let_def)
    also have "\<dots> = (files @ map (\<lambda>(i, p). (page_name stem (i + 1), render (i + 1) p))
        (filter (\<lambda>(i, p). page_name stem (i + 1) \<notin> set (map fst files)) ips), False)"
      by (rule Cons.IH[OF d])
    also have "filter (\<lambda>(i, p). page_name stem (i + 1) \<notin> set (map fst files)) ips =
        filter (\<lambda>(i, p). page_name stem (i + 1) \<notin> set (map fst files)) (ip # ips)"
      using True ip by simp
    finally show ?thesis .
  next
    case False
    let ?files = "files @ [(?out, render (i + 1) page)]"
    have same: "filter (\<lambda>(k, p). page_name stem (k + 1) \<notin> set (map fst ?files)) ips =
        filter (\<lambda>(k, p). page_name stem (k + 1) \<notin> set (map fst files)) ips"
    proof (rule filter_cong[OF refl])
      fix x assume x: "x \<in> set ips"
      obtain k p where kp: "x = (k, p)" by (cases x) auto
      with x ni have "k \<noteq> i" by force
      then have "k + 1 \<noteq> i + 1" by simp
      then have "page_name stem (k + 1) \<noteq> ?out" using page_name_inj by blast
      then show "(case x of (k, p) \<Rightarrow> page_name stem (k + 1) \<notin> set (map fst ?files)) =
          (case x of (k, p) \<Rightarrow> page_name stem (k + 1) \<notin> set (map fst files))"
        using kp by simp
    qed
    have "split_pages wr stem (ip # ips) files = split_pages wr stem ips ?files"
      using False wr ip by (simp add: Let_def)
    also have "\<dots> = (?files @ map (\<lambda>(i, p). (page_name stem (i + 1), render (i + 1) p))
        (filter (\<lambda>(i, p). page_name stem (i + 1) \<notin> set (map fst ?files)) ips), False)"
      by (rule Cons.IH[OF d])
    also have "\<dots> = (files @ map (\<lambda>(i, p). (page_name stem (i + 1), render (i + 1) p))
        (filter (\<lambda>(i, p). page_name stem (i + 1) \<notin> set (map fst files)) (ip # ips)), False)"
      unfolding same using False ip by simp
    finally show ?thesis .
  qed
qed


lemma enumerate_names:
  "(\<lambda>ip. page_name stem (fst ip + 1)) ` set (enumerate 0 pages) = page_name stem ` {1..length pages}"
proof -
  have "fst ` set (enumerate 0 pages) = {0..<length pages}"
    by (metis add_0 atLeastLessThan_upt list.set_map map_fst_enumerate)
  moreover have "(\<lambda>ip. page_name stem (fst ip + 1)) ` set (enumerate 0 pages)
      = (\<lambda>i. page_name stem (i + 1)) ` (fst ` set (enumerate 0 pages))"
    by (simp add: image_image)
  moreover have "(\<lambda>i. i + 1) ` {0..<length pages} = {1..length pages}"
    by (auto simp: image_iff Bex_def)
  then have "(\<lambda>i. page_name stem (i + 1)) ` {0..<length pages} = page_name stem ` {1..length pages}"
    by (metis (no_types, lifting) image_cong image_image)
  ultimately show ?thesis by simp
qed

text \<open>
  Claim C5. For a source of N pages, whatever \<open>glob\<close> returns: when the destination
  directory exists and the pattern of the page files finds exactly N paths, the PDF is
  skipped and the directory is left as it is. Otherwise the directory afterwards is the
  one before (none of its files touched) followed by new files, whose names are page names
  of the source that were not there; and when no write raises, the new files are exactly
  the pages whose file was missing, in page order, and the result is a success.
\<close>

theorem process_pdf_resume:
  "(already_split glob stem dest (length pages) \<longrightarrow>
      process_pdf glob wr stem (Some pages) dest = (dest, Skipped))
   \<and> (\<not> already_split glob stem dest (length pages) \<longrightarrow>
      (\<exists>new. fst (process_pdf glob wr stem (Some pages) dest) = Some (dir_files dest @ new)
         \<and> set (map fst new) \<subseteq> page_name stem ` {1..length pages}
         \<and> set (map fst new) \<inter> set (map fst (dir_files dest)) = {}))
   \<and> (\<not> already_split glob stem dest (length pages) \<and> (\<forall>j p. wr j p = Written (render j p)) \<longrightarrow>
      process_pdf glob wr stem (Some pages) dest =
        (Some (dir_files dest @ map (\<lambda>(i, p). (page_name stem (i + 1), render (i + 1) p))
           (filter (\<lambda>(i, p). page_name stem (i + 1) \<notin> set (map fst (dir_files dest)))
              (enumerate 0 pages))),
         Processed (length pages)))"
proof -
  have a: "already_split glob stem dest (length pages) \<Longrightarrow>
      process_pdf glob wr stem (Some pages) dest = (dest, Skipped)"
    by (simp add: process_pdf_def)
  have b: "\<not> already_split glob stem dest (length pages) \<Longrightarrow>
      (\<exists>new. fst (process_pdf glob wr stem (Some pages) dest) = Some (dir_files dest @ new)
         \<and> set (map fst new) \<subseteq> page_name stem ` {1..length pages}
         \<and> set (map fst new) \<inter> set (map fst (dir_files dest)) = {})"
  proof -
    assume n: "\<not> already_split glob stem dest (length pages)"
    from split_pages_frame[of wr stem "enumerate 0 pages" "dir_files dest"] obtain new where
      f: "fst (split_pages wr stem (enumerate 0 pages) (dir_files dest)) = dir_files dest @ new"
      "set (map fst new) \<subseteq> (\<lambda>ip. page_name stem (fst ip + 1)) ` set (enumerate 0 pages)"
      "set (map fst new) \<inter> set (map fst (dir_files dest)) = {}" by blast
    have f2: "set (map fst new) \<subseteq> page_name stem ` {1..length pages}"
      using f(2) unfolding enumerate_names .
    have "fst (process_pdf glob wr stem (Some pages) dest) =
        Some (fst (split_pages wr stem (enumerate 0 pages) (dir_files dest)))"
      using n by (simp add: process_pdf_def split: prod.splits)
    then have "fst (process_pdf glob wr stem (Some pages) dest) = Some (dir_files dest @ new)"
      using f(1) by simp
    with f2 f(3) show ?thesis by blast
  qed
  have c: "\<not> already_split glob stem dest (length pages) \<Longrightarrow> (\<forall>j p. wr j p = Written (render j p)) \<Longrightarrow>
      process_pdf glob wr stem (Some pages) dest =
        (Some (dir_files dest @ map (\<lambda>(i, p). (page_name stem (i + 1), render (i + 1) p))
           (filter (\<lambda>(i, p). page_name stem (i + 1) \<notin> set (map fst (dir_files dest)))
              (enumerate 0 pages))),
         Processed (length pages))"
  proof -
    assume n: "\<not> already_split glob stem dest (length pages)"
      and w: "\<forall>j p. wr j p = Written (render j p)"
    from w have w': "\<And>j p. wr j p = Written (render j p)" by simp
    have d: "distinct (map fst (enumerate 0 pages))" by simp
    have "split_pages wr stem (enumerate 0 pages) (dir_files dest) =
     (dir_files dest @ map (\<lambda>(i, p). (page_name stem (i + 1), render (i + 1) p))
        (filter (\<lambda>(i, p). page_name stem (i + 1) \<notin> set (map fst (dir_files dest)))
           (enumerate 0 pages)), False)"
      by (rule split_pages_all_written[OF w' d])
    then show ?thesis using n by (simp add: process_pdf_def)
  qed
  from a b c show ?thesis by (intro conjI impI) blast+
qed

theorem process_pdf_resume_witness:
  "already_split example_glob ''abc'' (Some example_dir5) (length example_pages)
   \<and> process_pdf example_glob example_write ''abc'' (Some example_pages) (Some example_dir5)
       = (Some example_dir5, Skipped)
   \<and> \<not> already_split example_glob ''abc'' (Some example_dir3) (length example_pages)
   \<and> (\<forall>j p. example_write j p = Written (''%PDF '' @ p))
   \<and> process_pdf example_glob example_write ''abc'' (Some example_pages) (Some example_dir3)
       = (Some (example_dir3 @ [(''abc-p4.pdf'', ''%PDF four''), (''abc-p5.pdf'', ''%PDF five'')]),
          Processed 5)"
proof -
  have h1: "already_split example_glob ''abc'' (Some example_dir5) (length example_pages)"
    by code_simp
  have h2: "\<not> already_split example_glob ''abc'' (Some example_dir3) (length example_pages)"
    by code_simp
  have h3: "\<forall>j p. example_write j p = Written (''%PDF '' @ p)"
    by (simp add: example_write_def)
  have c: "process_pdf example_glob example_write ''abc'' (Some example_pages) (Some example_dir3)
       = (Some (example_dir3 @ [(''abc-p4.pdf'', ''%PDF four''), (''abc-p5.pdf'', ''%PDF five'')]),
          Processed 5)"
    by code_simp
  note t5 = process_pdf_resume[of example_glob "''abc''" "Some example_dir5" example_pages example_write]
  note t3 = process_pdf_resume[of example_glob "''abc''" "Some example_dir3" example_pages example_write
      "\<lambda>j p. ''%PDF '' @ p"]
  show ?thesis using h1 h2 h3 c t5 t3 by blast
qed

end
